theory Spec2Isabelle
  imports Complex_Main
begin

section \<open>Mini Pyro: handler stack, dispatch, primitives and ELBO\<close>

text \<open>
  A shallow embedding of \<^verbatim>\<open>pyro/contrib/minipyro.py\<close>. The two process-wide globals
  \<^verbatim>\<open>PYRO_STACK\<close> and \<^verbatim>\<open>PARAM_STORE\<close> are fields of an explicit state. The stack
  holds references to handler objects, which live in a store, so that a handler mutated
  through the stack (a trace recording a site) is the object its creator still holds.
  Every function that can raise returns its result together with the state reached:
  an exception leaves the mutations made before it in place.
\<close>

subsection \<open>Data model\<close>

datatype error = AssertionError | UnboundLocalError | IndexError | TypeError | AttributeError

text \<open>\<^verbatim>\<open>msg["type"]\<close> is one of the strings "sample" and "param".\<close>

datatype kind = Sample | Param

text \<open>
  The distribution object, an external collaborator, through the three members the file
  uses. \<^verbatim>\<open>sample()\<close> is random: \<open>draw d n\<close> is what the distribution returns when
  its call is the \<open>n\<close>-th descriptor call of the run, which the state counts.
  \<^verbatim>\<open>log_prob(value).sum()\<close> is the scalar \<open>log_prob d v\<close>, over the reals.
\<close>

record 'v dist =
  batch_shape :: "int list"
  draw :: "nat \<Rightarrow> 'v"
  log_prob :: "'v \<Rightarrow> real"

text \<open>
  A constraint with the bijection \<^verbatim>\<open>torch.distributions.transform_to\<close> gives for it:
  \<open>transform c\<close> is the forward map, \<open>transform_inv c\<close> is \<^verbatim>\<open>.inv\<close>.
\<close>

record 'v constraint =
  transform :: "'v \<Rightarrow> 'v"
  transform_inv :: "'v \<Rightarrow> 'v"

text \<open>
  \<^verbatim>\<open>msg["fn"]\<close>: the distribution of a sample site, or the closure \<^verbatim>\<open>fn\<close> that
  \<^verbatim>\<open>param\<close> builds, which captures the site's name.
  \<^verbatim>\<open>msg["args"]\<close>: \<^verbatim>\<open>()\<close> for a sample site, \<^verbatim>\<open>(init_value, constraint)\<close> for a
  param site.
\<close>

datatype 'v descriptor = DistFn "'v dist" | ParamFn string

datatype 'v arguments = NoArgs | ParamArgs "'v option" "'v constraint"

record 'v msg =
  msg_type :: kind
  msg_name :: string
  msg_fn :: "'v descriptor"
  msg_args :: "'v arguments"
  msg_value :: "'v option"
  msg_stop :: bool

text \<open>
  The handler classes. A trace carries its \<^verbatim>\<open>OrderedDict\<close> as an association list in
  insertion order, a replay its reference trace, a block its predicate, a plate its
  size and dimension. The attribute \<^verbatim>\<open>self.trace\<close> is assigned by \<^verbatim>\<open>__enter__\<close>
  before anything reads it, so an object not yet entered carries the empty mapping.
\<close>

type_synonym 'v trace_dict = "(string \<times> 'v msg) list"

datatype 'v handler =
    Messenger
  | Trace "'v trace_dict"
  | Replay "'v trace_dict"
  | Block "'v msg \<Rightarrow> bool"
  | PlateMessenger int int

text \<open>
  A hook call, as the dispatch makes it: which hook, on which handler object. The state
  keeps the sequence of hook calls made and the number of descriptor calls made (calls
  of a distribution and of a param closure); the program reads neither. \<open>next_ref\<close> is the reference the next object constructed will get.
\<close>

datatype hook_call = Process_message nat | Postprocess_message nat

record 'v state =
  PYRO_STACK :: "nat list"
  heap :: "nat \<Rightarrow> 'v handler"
  PARAM_STORE :: "string \<rightharpoonup> ('v \<times> 'v constraint)"
  next_ref :: nat
  fn_calls :: nat
  hook_calls :: "hook_call list"

type_synonym ('a, 'v) result = "(error + 'a) \<times> 'v state"

subsection \<open>Python list operations\<close>

text \<open>\<^verbatim>\<open>xs[i:]\<close>: a negative start counts from the end and is clipped at 0.\<close>

definition slice_from :: "int \<Rightarrow> 'a list \<Rightarrow> 'a list" where
  "slice_from i xs =
     (if i < 0 then drop (nat (max 0 (int (length xs) + i))) xs else drop (nat i) xs)"

text \<open>\<^verbatim>\<open>enumerate(xs)\<close>, counting from \<open>n\<close>.\<close>

fun enumerate_from :: "nat \<Rightarrow> 'a list \<Rightarrow> (nat \<times> 'a) list" where
  "enumerate_from n [] = []"
| "enumerate_from n (x # xs) = (n, x) # enumerate_from (Suc n) xs"

subsection \<open>Messenger: scope entry and exit\<close>

text \<open>
  \<^verbatim>\<open>Messenger.__enter__\<close> appends the object to the stack; \<^verbatim>\<open>trace.__enter__\<close> does
  that and then assigns a fresh \<^verbatim>\<open>OrderedDict\<close> to \<^verbatim>\<open>self.trace\<close>.
\<close>

definition enter :: "nat \<Rightarrow> 'v state \<Rightarrow> 'v state" where
  "enter h s =
     (let s1 = s\<lparr>PYRO_STACK := PYRO_STACK s @ [h]\<rparr>
      in case heap s1 h of
           Trace t \<Rightarrow> s1\<lparr>heap := (heap s1)(h := Trace [])\<rparr>
         | _ \<Rightarrow> s1)"

text \<open>
  \<^verbatim>\<open>Messenger.__exit__\<close>: \<^verbatim>\<open>PYRO_STACK[-1]\<close> raises IndexError on an empty list;
  the assertion compares object identity; then the top is popped.
\<close>

definition exit :: "nat \<Rightarrow> 'v state \<Rightarrow> (unit, 'v) result" where
  "exit h s =
     (if PYRO_STACK s = [] then (Inl IndexError, s)
      else if last (PYRO_STACK s) \<noteq> h then (Inl AssertionError, s)
      else (Inr (), s\<lparr>PYRO_STACK := butlast (PYRO_STACK s)\<rparr>))"

subsection \<open>The hooks\<close>

text \<open>
  \<^verbatim>\<open>PlateMessenger.__init__\<close> asserts \<open>dim < 0\<close>, so every plate object has a
  negative dimension. The test of \<^verbatim>\<open>process_message\<close> reads \<^verbatim>\<open>batch_shape[dim]\<close>
  only when the shape has at least \<open>-dim\<close> entries; the new shape is left-padded with
  1s up to \<open>-dim\<close> entries and has the entry at the negative index \<open>dim\<close> set.
\<close>

definition plate_init :: "int \<Rightarrow> int \<Rightarrow> error + 'v handler" where
  "plate_init sz dm = (if dm < 0 then Inr (PlateMessenger sz dm) else Inl AssertionError)"

definition plate_mismatch :: "int \<Rightarrow> int \<Rightarrow> int list \<Rightarrow> bool" where
  "plate_mismatch sz dm bs =
     (int (length bs) < - dm \<or> bs ! nat (int (length bs) + dm) \<noteq> sz)"

definition plate_shape :: "int \<Rightarrow> int \<Rightarrow> int list \<Rightarrow> int list" where
  "plate_shape sz dm bs =
     (let bs' = replicate (nat (- dm - int (length bs))) 1 @ bs
      in bs'[nat (int (length bs') + dm) := sz])"

text \<open>\<^verbatim>\<open>Distribution.expand\<close>, an external collaborator: the same distribution with the new batch shape.\<close>

definition expand :: "'v dist \<Rightarrow> int list \<Rightarrow> 'v dist" where
  "expand d shape = d\<lparr>batch_shape := shape\<rparr>"

fun process_message :: "'v handler \<Rightarrow> 'v msg \<Rightarrow> error + 'v msg" where
  "process_message Messenger m = Inr m"
| "process_message (Trace t) m = Inr m"
| "process_message (Replay guide_trace) m =
     (case map_of guide_trace (msg_name m) of
        Some site \<Rightarrow> Inr (m\<lparr>msg_value := msg_value site\<rparr>)
      | None \<Rightarrow> Inr m)"
| "process_message (Block hide_fn) m =
     (if hide_fn m then Inr (m\<lparr>msg_stop := True\<rparr>) else Inr m)"
| "process_message (PlateMessenger sz dm) m =
     (if msg_type m = Sample then
        (case msg_fn m of
           DistFn d \<Rightarrow>
             (if plate_mismatch sz dm (batch_shape d)
              then Inr (m\<lparr>msg_fn := DistFn (expand d (plate_shape sz dm (batch_shape d)))\<rparr>)
              else Inr m)
         | ParamFn n \<Rightarrow> Inl AttributeError)
      else Inr m)"

text \<open>
  Only the trace's post-hook does anything: it asserts the name is new and stores a copy
  of the message under it. The hook changes the handler object, not the message.
\<close>

fun postprocess_message :: "'v handler \<Rightarrow> 'v msg \<Rightarrow> error + 'v handler" where
  "postprocess_message (Trace t) m =
     (if msg_name m \<in> fst ` set t then Inl AssertionError
      else Inr (Trace (t @ [(msg_name m, m)])))"
| "postprocess_message h m = Inr h"

subsection \<open>The descriptors\<close>

text \<open>
  The closure \<^verbatim>\<open>fn\<close> of \<^verbatim>\<open>param\<close>. A stored name wins over the arguments; a new
  name needs an initial value. \<^verbatim>\<open>detach\<close> and \<^verbatim>\<open>requires_grad_\<close> do not change the
  value, and the back-reference set on the result is an attribute beside the value.
\<close>

definition param_fn ::
  "string \<Rightarrow> 'v option \<Rightarrow> 'v constraint \<Rightarrow> 'v state \<Rightarrow> ('v, 'v) result" where
  "param_fn name init_value constraint s0 =
     (let s = s0\<lparr>fn_calls := Suc (fn_calls s0)\<rparr>
      in case PARAM_STORE s name of
           Some (unconstrained_value, c) \<Rightarrow> (Inr (transform c unconstrained_value), s)
         | None \<Rightarrow>
             (case init_value of
                None \<Rightarrow> (Inl AssertionError, s)
              | Some iv \<Rightarrow>
                  (let unconstrained_value = transform_inv constraint iv
                   in (Inr (transform constraint unconstrained_value),
                       s\<lparr>PARAM_STORE := (PARAM_STORE s)(name \<mapsto> (unconstrained_value, constraint))\<rparr>))))"

text \<open>Calling a distribution returns a sample of it.\<close>

definition dist_call :: "'v dist \<Rightarrow> 'v state \<Rightarrow> ('v, 'v) result" where
  "dist_call d s = (Inr (draw d (fn_calls s)), s\<lparr>fn_calls := Suc (fn_calls s)\<rparr>)"

text \<open>
  \<^verbatim>\<open>msg["fn"](*msg["args"])\<close>. A call with the wrong number of arguments is made and
  raises TypeError.
\<close>

fun call_fn :: "'v descriptor \<Rightarrow> 'v arguments \<Rightarrow> 'v state \<Rightarrow> ('v, 'v) result" where
  "call_fn (DistFn d) NoArgs s = dist_call d s"
| "call_fn (ParamFn name) (ParamArgs init_value constraint) s = param_fn name init_value constraint s"
| "call_fn (DistFn d) (ParamArgs init_value constraint) s =
     (Inl TypeError, s\<lparr>fn_calls := Suc (fn_calls s)\<rparr>)"
| "call_fn (ParamFn name) NoArgs s = (Inl TypeError, s\<lparr>fn_calls := Suc (fn_calls s)\<rparr>)"

subsection \<open>apply\_stack\<close>

text \<open>
  The first loop, over \<^verbatim>\<open>enumerate(reversed(PYRO_STACK))\<close>. \<open>pointer\<close> is the loop
  variable as the loop leaves it: unbound (\<open>None\<close>) until the first iteration assigns it.
\<close>

fun process_loop ::
  "(nat \<times> nat) list \<Rightarrow> nat option \<Rightarrow> 'v msg \<Rightarrow> 'v state \<Rightarrow> (nat option \<times> 'v msg, 'v) result" where
  "process_loop [] pointer m s = (Inr (pointer, m), s)"
| "process_loop ((p, h) # rest) pointer m s =
     (let s1 = s\<lparr>hook_calls := hook_calls s @ [Process_message h]\<rparr>
      in case process_message (heap s1 h) m of
           Inl e \<Rightarrow> (Inl e, s1)
         | Inr m1 \<Rightarrow> if msg_stop m1 then (Inr (Some p, m1), s1)
                     else process_loop rest (Some p) m1 s1)"

text \<open>The second loop, over the slice of the stack.\<close>

fun postprocess_loop :: "nat list \<Rightarrow> 'v msg \<Rightarrow> 'v state \<Rightarrow> (unit, 'v) result" where
  "postprocess_loop [] m s = (Inr (), s)"
| "postprocess_loop (h # rest) m s =
     (let s1 = s\<lparr>hook_calls := hook_calls s @ [Postprocess_message h]\<rparr>
      in case postprocess_message (heap s1 h) m of
           Inl e \<Rightarrow> (Inl e, s1)
         | Inr h1 \<Rightarrow> postprocess_loop rest m (s1\<lparr>heap := (heap s1)(h := h1)\<rparr>))"

text \<open>The middle of \<^verbatim>\<open>apply_stack\<close>: the descriptor is called when the value is \<^verbatim>\<open>None\<close>.\<close>

definition fill_value :: "'v msg \<Rightarrow> 'v state \<Rightarrow> ('v msg, 'v) result" where
  "fill_value m s =
     (case msg_value m of
        None \<Rightarrow>
          (case call_fn (msg_fn m) (msg_args m) s of
             (Inl e, s1) \<Rightarrow> (Inl e, s1)
           | (Inr v, s1) \<Rightarrow> (Inr (m\<lparr>msg_value := Some v\<rparr>), s1))
      | Some v \<Rightarrow> (Inr m, s))"

definition apply_stack :: "'v msg \<Rightarrow> 'v state \<Rightarrow> ('v msg, 'v) result" where
  "apply_stack msg s =
     (case process_loop (enumerate_from 0 (rev (PYRO_STACK s))) None msg s of
        (Inl e, s1) \<Rightarrow> (Inl e, s1)
      | (Inr (pointer, m1), s1) \<Rightarrow>
          (case fill_value m1 s1 of
             (Inl e, s2) \<Rightarrow> (Inl e, s2)
           | (Inr m2, s2) \<Rightarrow>
               (case pointer of
                  None \<Rightarrow> (Inl UnboundLocalError, s2)
                | Some p \<Rightarrow>
                    (case postprocess_loop (slice_from (- int p - 1) (PYRO_STACK s2)) m2 s2 of
                       (Inl e, s3) \<Rightarrow> (Inl e, s3)
                     | (Inr u, s3) \<Rightarrow> (Inr m2, s3)))))"

subsection \<open>The primitives\<close>

definition sample :: "string \<Rightarrow> 'v dist \<Rightarrow> 'v option \<Rightarrow> 'v state \<Rightarrow> ('v option, 'v) result" where
  "sample name fn obs s =
     (if PYRO_STACK s = [] then
        (case dist_call fn s of (Inl e, s1) \<Rightarrow> (Inl e, s1) | (Inr v, s1) \<Rightarrow> (Inr (Some v), s1))
      else
        (let initial_msg = \<lparr>msg_type = Sample, msg_name = name, msg_fn = DistFn fn,
                            msg_args = NoArgs, msg_value = obs, msg_stop = False\<rparr>
         in case apply_stack initial_msg s of
              (Inl e, s1) \<Rightarrow> (Inl e, s1)
            | (Inr m, s1) \<Rightarrow> (Inr (msg_value m), s1)))"

definition param ::
  "string \<Rightarrow> 'v option \<Rightarrow> 'v constraint \<Rightarrow> 'v state \<Rightarrow> ('v option, 'v) result" where
  "param name init_value constraint s =
     (if PYRO_STACK s = [] then
        (case param_fn name init_value constraint s of
           (Inl e, s1) \<Rightarrow> (Inl e, s1)
         | (Inr v, s1) \<Rightarrow> (Inr (Some v), s1))
      else
        (let initial_msg = \<lparr>msg_type = Param, msg_name = name, msg_fn = ParamFn name,
                            msg_args = ParamArgs init_value constraint, msg_value = None,
                            msg_stop = False\<rparr>
         in case apply_stack initial_msg s of
              (Inl e, s1) \<Rightarrow> (Inl e, s1)
            | (Inr m, s1) \<Rightarrow> (Inr (msg_value m), s1)))"

subsection \<open>Models\<close>

text \<open>
  A model or guide is a Python function whose effects are calls of \<^verbatim>\<open>sample\<close> and
  \<^verbatim>\<open>param\<close> and \<^verbatim>\<open>with\<close> blocks on handlers it constructs; what it does next may
  depend on the values the primitives returned.
\<close>

datatype 'v prog =
    Done
  | SampleP string "'v dist" "'v option" "'v option \<Rightarrow> 'v prog"
  | ParamP string "'v option" "'v constraint" "'v option \<Rightarrow> 'v prog"
  | WithP "'v handler" "'v prog" "'v prog"

definition new_handler :: "'v handler \<Rightarrow> 'v state \<Rightarrow> nat \<times> 'v state" where
  "new_handler h s =
     (next_ref s, s\<lparr>heap := (heap s)(next_ref s := h), next_ref := Suc (next_ref s)\<rparr>)"

text \<open>
  The \<^verbatim>\<open>with self:\<close> statement of \<^verbatim>\<open>Messenger.__call__\<close>, around a body already run
  from the entered state: \<^verbatim>\<open>__exit__\<close> runs however the body ended, an exception of
  \<^verbatim>\<open>__exit__\<close> replaces the body's, and otherwise the body's outcome stands.
\<close>

definition leave :: "nat \<Rightarrow> ('a, 'v) result \<Rightarrow> ('a, 'v) result" where
  "leave h r =
     (case exit h (snd r) of
        (Inl e, s1) \<Rightarrow> (Inl e, s1)
      | (Inr u, s1) \<Rightarrow> (fst r, s1))"

primrec run :: "'v prog \<Rightarrow> 'v state \<Rightarrow> (unit, 'v) result" where
  "run Done s = (Inr (), s)"
| "run (SampleP name fn obs k) s =
     (case sample name fn obs s of
        (Inl e, s1) \<Rightarrow> (Inl e, s1)
      | (Inr v, s1) \<Rightarrow> run (k v) s1)"
| "run (ParamP name init_value constraint k) s =
     (case param name init_value constraint s of
        (Inl e, s1) \<Rightarrow> (Inl e, s1)
      | (Inr v, s1) \<Rightarrow> run (k v) s1)"
| "run (WithP h body rest) s =
     (case new_handler h s of
        (r, s1) \<Rightarrow>
          (case leave r (run body (enter r s1)) of
             (Inl e, s2) \<Rightarrow> (Inl e, s2)
           | (Inr u, s2) \<Rightarrow> run rest s2))"

text \<open>
  \<^verbatim>\<open>trace(fn).get_trace()\<close>: a new trace object is called on \<^verbatim>\<open>fn\<close> and its
  \<^verbatim>\<open>self.trace\<close> is returned. A handler that \<^verbatim>\<open>fn\<close> wraps gets its reference when it
  is entered; a reference only identifies its object, so the order of construction
  plays no role.
\<close>

definition get_trace :: "'v prog \<Rightarrow> 'v state \<Rightarrow> ('v trace_dict, 'v) result" where
  "get_trace fn s =
     (case new_handler (Trace []) s of
        (r, s1) \<Rightarrow>
          (case leave r (run fn (enter r s1)) of
             (Inl e, s2) \<Rightarrow> (Inl e, s2)
           | (Inr u, s2) \<Rightarrow>
               (case heap s2 r of
                  Trace t \<Rightarrow> (Inr t, s2)
                | _ \<Rightarrow> (Inl AttributeError, s2))))"

subsection \<open>elbo\<close>

text \<open>
  \<^verbatim>\<open>site["fn"].log_prob(site["value"]).sum()\<close>: the descriptor of a sample site is a
  distribution, and its density is taken at a value that is not \<^verbatim>\<open>None\<close>.
\<close>

definition site_log_prob :: "'v msg \<Rightarrow> error + real" where
  "site_log_prob site =
     (case msg_fn site of
        ParamFn n \<Rightarrow> Inl AttributeError
      | DistFn d \<Rightarrow> (case msg_value site of None \<Rightarrow> Inl TypeError | Some v \<Rightarrow> Inr (log_prob d v)))"

text \<open>The two accumulation loops of \<^verbatim>\<open>elbo\<close>, over \<^verbatim>\<open>trace.values()\<close>.\<close>

fun model_loop :: "'v msg list \<Rightarrow> real \<Rightarrow> error + real" where
  "model_loop [] elbo = Inr elbo"
| "model_loop (site # rest) elbo =
     (if msg_type site = Sample then
        (case site_log_prob site of
           Inl e \<Rightarrow> Inl e
         | Inr lp \<Rightarrow> model_loop rest (elbo + lp))
      else model_loop rest elbo)"

fun guide_loop :: "'v msg list \<Rightarrow> real \<Rightarrow> error + real" where
  "guide_loop [] elbo = Inr elbo"
| "guide_loop (site # rest) elbo =
     (if msg_type site = Sample then
        (case site_log_prob site of
           Inl e \<Rightarrow> Inl e
         | Inr lp \<Rightarrow> guide_loop rest (elbo - lp))
      else guide_loop rest elbo)"

definition elbo :: "'v prog \<Rightarrow> 'v prog \<Rightarrow> 'v state \<Rightarrow> (real, 'v) result" where
  "elbo model guide s =
     (case get_trace guide s of
        (Inl e, s1) \<Rightarrow> (Inl e, s1)
      | (Inr guide_trace, s1) \<Rightarrow>
          (case get_trace (WithP (Replay guide_trace) model Done) s1 of
             (Inl e, s2) \<Rightarrow> (Inl e, s2)
           | (Inr model_trace, s2) \<Rightarrow>
               (case model_loop (map snd model_trace) 0 of
                  Inl e \<Rightarrow> (Inl e, s2)
                | Inr elbo1 \<Rightarrow>
                    (case guide_loop (map snd guide_trace) elbo1 of
                       Inl e \<Rightarrow> (Inl e, s2)
                     | Inr elbo2 \<Rightarrow> (Inr (- elbo2), s2)))))"

subsection \<open>Iterating over a plate\<close>

text \<open>
  \<^verbatim>\<open>PlateMessenger.__iter__\<close> returns \<^verbatim>\<open>range(self.size)\<close>. Python's \<^verbatim>\<open>iter(obj)\<close>,
  which a \<^verbatim>\<open>for\<close> loop calls, takes what \<^verbatim>\<open>obj.__iter__()\<close> returns and raises
  TypeError unless that object is an iterator, that is, has \<^verbatim>\<open>__next__\<close>. A range is
  iterable but is not an iterator; \<^verbatim>\<open>iter(range(n))\<close> is one.
\<close>

datatype pyobject = Range int | Range_iterator int

definition has_next :: "pyobject \<Rightarrow> bool" where
  "has_next obj = (case obj of Range n \<Rightarrow> False | Range_iterator n \<Rightarrow> True)"

definition plate_iter :: "'v handler \<Rightarrow> error + pyobject" where
  "plate_iter h = (case h of PlateMessenger sz dm \<Rightarrow> Inr (Range sz) | _ \<Rightarrow> Inl AttributeError)"

text \<open>The values an iterator yields until it is exhausted.\<close>

definition yields :: "pyobject \<Rightarrow> int list" where
  "yields obj = (case obj of Range n \<Rightarrow> [] | Range_iterator n \<Rightarrow> map int [0..<nat n])"

text \<open>\<^verbatim>\<open>list(h)\<close>, or the values a \<^verbatim>\<open>for\<close> loop over \<open>h\<close> binds.\<close>

definition iterate :: "'v handler \<Rightarrow> error + int list" where
  "iterate h =
     (case plate_iter h of
        Inl e \<Rightarrow> Inl e
      | Inr obj \<Rightarrow> if has_next obj then Inr (yields obj) else Inl TypeError)"

subsection \<open>Handlers reached by a dispatch\<close>

text \<open>
  The message after the pre-hooks of the handlers \<open>hs\<close> have run on it in that order,
  without regard to \<^verbatim>\<open>stop\<close>.
\<close>

fun process_all :: "(nat \<Rightarrow> 'v handler) \<Rightarrow> nat list \<Rightarrow> 'v msg \<Rightarrow> error + 'v msg" where
  "process_all hp [] m = Inr m"
| "process_all hp (h # hs) m =
     (case process_message (hp h) m of Inl e \<Rightarrow> Inl e | Inr m1 \<Rightarrow> process_all hp hs m1)"

text \<open>The predicate \<^verbatim>\<open>lambda msg: msg["type"] == "sample"\<close> that \<^verbatim>\<open>SVI.step\<close> gives its block.\<close>

definition is_sample :: "'v msg \<Rightarrow> bool" where
  "is_sample m = (msg_type m = Sample)"

text \<open>A replay whose reference trace has the name.\<close>

definition replays :: "'v handler \<Rightarrow> string \<Rightarrow> bool" where
  "replays h name = (case h of Replay guide_trace \<Rightarrow> map_of guide_trace name \<noteq> None | _ \<Rightarrow> False)"

subsection \<open>Example inputs\<close>

text \<open>A state with no handler active and nothing stored, two distributions and a constraint.\<close>

definition state0 :: "int state" where
  "state0 = \<lparr>PYRO_STACK = [], heap = (\<lambda>r. Messenger), PARAM_STORE = Map.empty,
             next_ref = 0, fn_calls = 0, hook_calls = []\<rparr>"

definition dist_a :: "int dist" where
  "dist_a = \<lparr>batch_shape = [], draw = (\<lambda>n. 7 + int n), log_prob = (\<lambda>v. - real_of_int (v * v))\<rparr>"

definition dist_b :: "int dist" where
  "dist_b = \<lparr>batch_shape = [], draw = (\<lambda>n. 100 + int n), log_prob = (\<lambda>v. - 3 - real_of_int v)\<rparr>"

definition shift :: "int constraint" where
  "shift = \<lparr>transform = (\<lambda>u. u + 10), transform_inv = (\<lambda>c. c - 10)\<rparr>"

text \<open>A trace object none of whose recorded sites is a sample site.\<close>

definition sample_free :: "'v handler \<Rightarrow> bool" where
  "sample_free h = (case h of Trace tr \<Rightarrow> Sample \<notin> set (map (msg_type \<circ> snd) tr) | _ \<Rightarrow> False)"

text \<open>A model with one param site and one sample site, and a guide with the same sample site.\<close>

definition model_px :: "int prog" where
  "model_px = ParamP ''p'' (Some 5) shift (\<lambda>p. SampleP ''x'' dist_a None (\<lambda>x. Done))"


text \<open>
  A state in which a trace (object 0), a block hiding sample sites (object 1) and a second
  trace (object 2) have been entered in that order, and a sample message.
\<close>

definition state3 :: "int state" where
  "state3 = \<lparr>PYRO_STACK = [0, 1, 2],
              heap = (\<lambda>r. Messenger)(0 := Trace [], 1 := Block is_sample, 2 := Trace []),
              PARAM_STORE = Map.empty, next_ref = 3, fn_calls = 0, hook_calls = []\<rparr>"

definition msg_x :: "int msg" where
  "msg_x = \<lparr>msg_type = Sample, msg_name = ''x'', msg_fn = DistFn dist_a, msg_args = NoArgs,
             msg_value = None, msg_stop = False\<rparr>"

text \<open>A reference trace with the site \<open>x\<close> at the value 99, and a state with its replay entered.\<close>

definition trace_x :: "int trace_dict" where
  "trace_x = [(''x'', \<lparr>msg_type = Sample, msg_name = ''x'', msg_fn = DistFn dist_b,
                       msg_args = NoArgs, msg_value = Some 99, msg_stop = False\<rparr>)]"

definition state_replay :: "int state" where
  "state_replay = \<lparr>PYRO_STACK = [0], heap = (\<lambda>r. Messenger)(0 := Replay trace_x),
                    PARAM_STORE = Map.empty, next_ref = 1, fn_calls = 0, hook_calls = []\<rparr>"

text \<open>
  A trace object whose keys are distinct and are the names of the messages stored under
  them (any other handler counts as such).
\<close>

definition well_keyed :: "'v handler \<Rightarrow> bool" where
  "well_keyed h =
     (case h of
        Trace tr \<Rightarrow> distinct (map fst tr) \<and> map fst tr = map (msg_name \<circ> snd) tr
      | _ \<Rightarrow> True)"

text \<open>
  A message as \<^verbatim>\<open>sample\<close> and \<^verbatim>\<open>param\<close> build it: a sample message has a distribution
  and no arguments, a param message the closure and its two arguments.
\<close>

definition well_formed :: "'v msg \<Rightarrow> bool" where
  "well_formed m =
     (case (msg_type m, msg_fn m, msg_args m) of
        (Sample, DistFn d, NoArgs) \<Rightarrow> True
      | (Param, ParamFn n, ParamArgs iv c) \<Rightarrow> True
      | _ \<Rightarrow> False)"

text \<open>A model that issues the sample site \<open>x\<close> twice, and a state with a trace that has recorded \<open>x\<close>.\<close>

definition model_xx :: "int prog" where
  "model_xx = SampleP ''x'' dist_a None (\<lambda>x. SampleP ''x'' dist_b None (\<lambda>x. Done))"

definition state_traced :: "int state" where
  "state_traced = \<lparr>PYRO_STACK = [0], heap = (\<lambda>r. Messenger)(0 := Trace trace_x),
                    PARAM_STORE = Map.empty, next_ref = 1, fn_calls = 0, hook_calls = []\<rparr>"

subsection \<open>The dispatch protocol in the words of the specification\<close>

text \<open>
  Section 4.1 of the specification, for a stack of any depth, also zero. Pre-phase: the
  \<^verbatim>\<open>process_message\<close> hooks run from the most recently entered handler outward and stop
  after the first hook that sets \<^verbatim>\<open>stop\<close>; the handlers reached are collected. Then the
  descriptor is called if the value is unset. Post-phase: the \<^verbatim>\<open>postprocess_message\<close>
  hooks run over the handlers reached, in entry order.
\<close>

fun spec_pre_phase :: "nat list \<Rightarrow> 'v msg \<Rightarrow> 'v state \<Rightarrow> (nat list \<times> 'v msg, 'v) result" where
  "spec_pre_phase [] m s = (Inr ([], m), s)"
| "spec_pre_phase (h # hs) m s =
     (let s1 = s\<lparr>hook_calls := hook_calls s @ [Process_message h]\<rparr>
      in case process_message (heap s1 h) m of
           Inl e \<Rightarrow> (Inl e, s1)
         | Inr m1 \<Rightarrow>
             if msg_stop m1 then (Inr ([h], m1), s1)
             else (case spec_pre_phase hs m1 s1 of
                     (Inl e, s2) \<Rightarrow> (Inl e, s2)
                   | (Inr (reached, m2), s2) \<Rightarrow> (Inr (h # reached, m2), s2)))"

definition spec_dispatch :: "'v msg \<Rightarrow> 'v state \<Rightarrow> ('v msg, 'v) result" where
  "spec_dispatch msg s =
     (case spec_pre_phase (rev (PYRO_STACK s)) msg s of
        (Inl e, s1) \<Rightarrow> (Inl e, s1)
      | (Inr (reached, m1), s1) \<Rightarrow>
          (case fill_value m1 s1 of
             (Inl e, s2) \<Rightarrow> (Inl e, s2)
           | (Inr m2, s2) \<Rightarrow>
               (case postprocess_loop (rev reached) m2 s2 of
                  (Inl e, s3) \<Rightarrow> (Inl e, s3)
                | (Inr u, s3) \<Rightarrow> (Inr m2, s3))))"

text \<open>What a primitive returns from the message a dispatch returns.\<close>

definition resolved :: "('v msg, 'v) result \<Rightarrow> ('v option, 'v) result" where
  "resolved res = (case res of (Inl e, s1) \<Rightarrow> (Inl e, s1) | (Inr m, s1) \<Rightarrow> (Inr (msg_value m), s1))"

text \<open>The initial messages of the two primitives.\<close>

definition sample_msg :: "string \<Rightarrow> 'v dist \<Rightarrow> 'v option \<Rightarrow> 'v msg" where
  "sample_msg name fn obs =
     \<lparr>msg_type = Sample, msg_name = name, msg_fn = DistFn fn, msg_args = NoArgs,
      msg_value = obs, msg_stop = False\<rparr>"

definition param_msg :: "string \<Rightarrow> 'v option \<Rightarrow> 'v constraint \<Rightarrow> 'v msg" where
  "param_msg name init_value constraint =
     \<lparr>msg_type = Param, msg_name = name, msg_fn = ParamFn name,
      msg_args = ParamArgs init_value constraint, msg_value = None, msg_stop = False\<rparr>"

text \<open>
  A message as the post-hooks see it: well-formed, with its value set. A trace object all
  of whose recorded messages are such (any other handler counts as such).
\<close>

definition complete :: "'v msg \<Rightarrow> bool" where
  "complete m = (well_formed m \<and> msg_value m \<noteq> None)"








section \<open>Properties\<close>

subsection \<open>The stack is only changed by entry and exit\<close>

lemma process_loop_stack:
  "process_loop ps ptr m s = (r, s') \<Longrightarrow> PYRO_STACK s' = PYRO_STACK s"
  by (induction ps ptr m s rule: process_loop.induct)
     (auto simp: Let_def split: sum.splits if_splits)

lemma postprocess_loop_stack:
  "postprocess_loop hs m s = (r, s') \<Longrightarrow> PYRO_STACK s' = PYRO_STACK s"
  by (induction hs m s rule: postprocess_loop.induct)
     (auto simp: Let_def split: sum.splits)

lemma call_fn_stack: "call_fn f a s = (r, s') \<Longrightarrow> PYRO_STACK s' = PYRO_STACK s"
  by (cases "(f, a, s)" rule: call_fn.cases)
     (auto simp: dist_call_def param_fn_def Let_def split: option.splits)

lemma fill_value_stack: "fill_value m s = (r, s') \<Longrightarrow> PYRO_STACK s' = PYRO_STACK s"
  by (auto simp: fill_value_def split: option.splits prod.splits sum.splits dest: call_fn_stack)

lemma apply_stack_stack: "apply_stack m s = (r, s') \<Longrightarrow> PYRO_STACK s' = PYRO_STACK s"
  unfolding apply_stack_def
  by (auto split: prod.splits sum.splits option.splits
           dest!: process_loop_stack fill_value_stack postprocess_loop_stack)

lemma sample_stack: "sample n d obs s = (r, s') \<Longrightarrow> PYRO_STACK s' = PYRO_STACK s"
  by (auto simp: sample_def dist_call_def Let_def split: if_splits prod.splits sum.splits
           dest!: apply_stack_stack)

lemma param_stack: "param n iv c s = (r, s') \<Longrightarrow> PYRO_STACK s' = PYRO_STACK s"
  by (auto simp: param_def Let_def split: if_splits prod.splits sum.splits
           dest!: apply_stack_stack call_fn_stack [of "ParamFn n" "ParamArgs iv c", simplified])

lemma enter_stack: "PYRO_STACK (enter h s) = PYRO_STACK s @ [h]"
  by (simp add: enter_def Let_def split: handler.splits)

lemma new_handler_stack: "new_handler h s = (r, s1) \<Longrightarrow> PYRO_STACK s1 = PYRO_STACK s"
  by (auto simp: new_handler_def)

lemma leave_stack:
  "PYRO_STACK (snd res) = st @ [h] \<Longrightarrow> leave h res = (fst res, (snd res)\<lparr>PYRO_STACK := st\<rparr>)"
  by (simp add: leave_def exit_def)

lemma run_stack: "run p s = (r, s') \<Longrightarrow> PYRO_STACK s' = PYRO_STACK s"
proof (induction p arbitrary: s r s')
  case Done
  then show ?case by simp
next
  case (SampleP n d obs k)
  then show ?case
    by (auto split: prod.splits sum.splits dest!: sample_stack) (metis range_eqI)
next
  case (ParamP n iv c k)
  then show ?case
    by (auto split: prod.splits sum.splits dest!: param_stack) (metis range_eqI)
next
  case (WithP h body rest)
  obtain ref s1 where n: "new_handler h s = (ref, s1)" by (cases "new_handler h s")
  obtain rb sb where b: "run body (enter ref s1) = (rb, sb)" by (cases "run body (enter ref s1)")
  have sb: "PYRO_STACK sb = PYRO_STACK s @ [ref]"
    using WithP.IH(1) [OF b] new_handler_stack [OF n] by (simp add: enter_stack)
  have l: "leave ref (rb, sb) = (rb, sb\<lparr>PYRO_STACK := PYRO_STACK s\<rparr>)"
    using leave_stack [of "(rb, sb)" "PYRO_STACK s" ref] sb by simp
  show ?case
  proof (cases rb)
    case (Inl e)
    with WithP.prems n b l show ?thesis by auto
  next
    case (Inr u)
    with WithP.prems n b l have "run rest (sb\<lparr>PYRO_STACK := PYRO_STACK s\<rparr>) = (r, s')" by auto
    from WithP.IH(2) [OF this] show ?thesis by simp
  qed
qed

subsection \<open>Stack balance\<close>

text \<open>
  Claim C6. Entering a handler pushes it. Whatever the body run inside the scope does,
  and whether it returns or raises, the exit that follows finds the handler on top, pops
  it without failing and leaves the stack as it was before entry (so its depth is the
  same), passing on the body's outcome. An exit that returns normally has popped exactly
  the handler exited, and an exit that finds another element on top raises
  AssertionError and changes nothing.
\<close>

theorem messenger_stack_balance:
  "PYRO_STACK (enter h s) = PYRO_STACK s @ [h] \<and>
   (\<exists>s2. exit h (snd (run body (enter h s))) = (Inr (), s2) \<and>
         PYRO_STACK s2 = PYRO_STACK s \<and>
         length (PYRO_STACK s2) = length (PYRO_STACK s) \<and>
         leave h (run body (enter h s)) = (fst (run body (enter h s)), s2)) \<and>
   (exit h t = (Inr (), t') \<longrightarrow> PYRO_STACK t = PYRO_STACK t' @ [h]) \<and>
   (PYRO_STACK t \<noteq> [] \<and> last (PYRO_STACK t) \<noteq> h \<longrightarrow> exit h t = (Inl AssertionError, t))"
proof -
  obtain rb sb where b: "run body (enter h s) = (rb, sb)" by (cases "run body (enter h s)")
  have sb: "PYRO_STACK sb = PYRO_STACK s @ [h]"
    using run_stack [OF b] by (simp add: enter_stack)
  have e: "exit h sb = (Inr (), sb\<lparr>PYRO_STACK := PYRO_STACK s\<rparr>)"
    using sb by (simp add: exit_def)
  have l: "leave h (rb, sb) = (rb, sb\<lparr>PYRO_STACK := PYRO_STACK s\<rparr>)"
    using e by (simp add: leave_def)
  have pop: "exit h t = (Inr (), t') \<longrightarrow> PYRO_STACK t = PYRO_STACK t' @ [h]"
    by (auto simp: exit_def split: if_splits)
  have fatal: "PYRO_STACK t \<noteq> [] \<and> last (PYRO_STACK t) \<noteq> h \<longrightarrow> exit h t = (Inl AssertionError, t)"
    by (simp add: exit_def)
  have scope: "\<exists>s2. exit h (snd (run body (enter h s))) = (Inr (), s2) \<and>
         PYRO_STACK s2 = PYRO_STACK s \<and>
         length (PYRO_STACK s2) = length (PYRO_STACK s) \<and>
         leave h (run body (enter h s)) = (fst (run body (enter h s)), s2)"
    unfolding b using e l by simp
  from enter_stack scope pop fatal show ?thesis by blast
qed

theorem messenger_stack_balance_witness:
  "exit 0 (enter 0 state0) = (Inr (), state0) \<and>
   PYRO_STACK (enter 1 state0) \<noteq> [] \<and> last (PYRO_STACK (enter 1 state0)) \<noteq> 0 \<and>
   exit 0 (enter 1 state0) = (Inl AssertionError, enter 1 state0)"
  using messenger_stack_balance [of 0 state0 Done "enter 1 state0" state0]
  by (simp add: enter_def exit_def state0_def)

subsection \<open>Iterating over a plate\<close>

text \<open>
  Claim C9. Iterating over a plate of any size raises TypeError, since what its
  \<^verbatim>\<open>__iter__\<close> returns is a range and not an iterator; no index is yielded. For size 3
  the indices 0, 1, 2 are what the iterator of that range would yield.
\<close>

theorem plate_iterate_type_error:
  "iterate (PlateMessenger 3 (- 1)) = Inl TypeError \<and>
   iterate (PlateMessenger sz dm) = Inl TypeError \<and>
   yields (Range_iterator 3) = [0, 1, 2]"
  by (simp add: iterate_def plate_iter_def has_next_def yields_def upt_rec)

subsection \<open>What the pre-hooks keep\<close>

lemma process_message_keeps:
  "process_message h m = Inr m1 \<Longrightarrow>
     msg_name m1 = msg_name m \<and> msg_type m1 = msg_type m \<and> msg_args m1 = msg_args m"
  by (cases h) (auto split: option.splits if_splits descriptor.splits)

lemma process_message_value:
  "process_message h m = Inr m1 \<Longrightarrow> \<not> replays h (msg_name m) \<Longrightarrow> msg_value m1 = msg_value m"
  by (cases h) (auto simp: replays_def split: option.splits if_splits descriptor.splits)


lemma process_all_append:
  "process_all hp (xs @ ys) m =
     (case process_all hp xs m of Inl e \<Rightarrow> Inl e | Inr m1 \<Rightarrow> process_all hp ys m1)"
  by (induction xs arbitrary: m) (auto split: sum.splits)

subsection \<open>The two loops of apply\_stack\<close>

lemma process_loop_char:
  "process_loop (enumerate_from k hs) ptr m s = (r, s1) \<Longrightarrow>
     \<exists>j\<le>length hs.
        s1 = s\<lparr>hook_calls := hook_calls s @ map Process_message (take j hs)\<rparr> \<and>
        (hs \<noteq> [] \<longrightarrow> 0 < j) \<and>
        (\<forall>i. 0 < i \<and> i < j \<longrightarrow>
              (\<exists>mi. process_all (heap s) (take i hs) m = Inr mi \<and> \<not> msg_stop mi)) \<and>
        (case r of
           Inl e \<Rightarrow> process_all (heap s) (take j hs) m = Inl e
         | Inr (p, m1) \<Rightarrow>
             process_all (heap s) (take j hs) m = Inr m1 \<and>
             p = (if j = 0 then ptr else Some (k + j - 1)) \<and>
             (j < length hs \<longrightarrow> msg_stop m1))"
proof (induction hs arbitrary: k ptr m s)
  case Nil
  then show ?case by auto
next
  case (Cons h hs)
  let ?s1 = "s\<lparr>hook_calls := hook_calls s @ [Process_message h]\<rparr>"
  show ?case
  proof (cases "process_message (heap s h) m")
    case (Inl e)
    with Cons.prems have "r = Inl e" "s1 = ?s1" by (auto simp: Let_def)
    with Inl show ?thesis by (intro exI [of _ 1]) auto
  next
    case (Inr m1)
    show ?thesis
    proof (cases "msg_stop m1")
      case True
      with Inr Cons.prems have "r = Inr (Some k, m1)" "s1 = ?s1" by (auto simp: Let_def)
      with Inr True show ?thesis by (intro exI [of _ 1]) auto
    next
      case False
      with Inr Cons.prems
      have "process_loop (enumerate_from (Suc k) hs) (Some k) m1 ?s1 = (r, s1)"
        by (auto simp: Let_def)
      from Cons.IH [OF this] obtain j where j: "j \<le> length hs"
        "s1 = ?s1\<lparr>hook_calls := hook_calls ?s1 @ map Process_message (take j hs)\<rparr>"
        "\<forall>i. 0 < i \<and> i < j \<longrightarrow>
              (\<exists>mi. process_all (heap ?s1) (take i hs) m1 = Inr mi \<and> \<not> msg_stop mi)"
        "case r of
           Inl e \<Rightarrow> process_all (heap ?s1) (take j hs) m1 = Inl e
         | Inr (p, m2) \<Rightarrow>
             process_all (heap ?s1) (take j hs) m1 = Inr m2 \<and>
             p = (if j = 0 then Some k else Some (Suc k + j - 1)) \<and>
             (j < length hs \<longrightarrow> msg_stop m2)"
        by blast
      have mid: "\<exists>mi. process_all (heap s) (take i (h # hs)) m = Inr mi \<and> \<not> msg_stop mi"
        if "0 < i" "i < Suc j" for i
      proof (cases i)
        case 0
        with that show ?thesis by simp
      next
        case (Suc i')
        show ?thesis
        proof (cases "i' = 0")
          case True
          with Suc Inr False show ?thesis by simp
        next
          case False
          with Suc that j(3) Inr show ?thesis by simp
        qed
      qed
      have fin: "case r of
           Inl e \<Rightarrow> process_all (heap s) (take (Suc j) (h # hs)) m = Inl e
         | Inr (p, m2) \<Rightarrow>
             process_all (heap s) (take (Suc j) (h # hs)) m = Inr m2 \<and>
             p = (if Suc j = 0 then ptr else Some (k + Suc j - 1)) \<and>
             (Suc j < length (h # hs) \<longrightarrow> msg_stop m2)"
        using j(4) Inr by (auto split: sum.splits)
      have st: "s1 = s\<lparr>hook_calls := hook_calls s @ map Process_message (take (Suc j) (h # hs))\<rparr>"
        using j(2) by simp
      from j(1) st mid fin show ?thesis
        by (intro exI [of _ "Suc j"]) (simp del: take_Suc_Cons)
    qed
  qed
qed

lemma postprocess_loop_char:
  "postprocess_loop hs m s = (r, s1) \<Longrightarrow>
     \<exists>j\<le>length hs.
        hook_calls s1 = hook_calls s @ map Postprocess_message (take j hs) \<and>
        (\<forall>u. r = Inr u \<longrightarrow> j = length hs) \<and>
        PARAM_STORE s1 = PARAM_STORE s \<and> fn_calls s1 = fn_calls s \<and> next_ref s1 = next_ref s"
proof (induction hs arbitrary: s)
  case Nil
  then show ?case by auto
next
  case (Cons h hs)
  let ?s1 = "s\<lparr>hook_calls := hook_calls s @ [Postprocess_message h]\<rparr>"
  show ?case
  proof (cases "postprocess_message (heap s h) m")
    case (Inl e)
    with Cons.prems have "r = Inl e" "s1 = ?s1" by (auto simp: Let_def)
    then show ?thesis by (intro exI [of _ 1]) auto
  next
    case (Inr h1)
    with Cons.prems
    have "postprocess_loop hs m (?s1\<lparr>heap := (heap ?s1)(h := h1)\<rparr>) = (r, s1)"
      by (auto simp: Let_def)
    from Cons.IH [OF this] obtain j where "j \<le> length hs"
      "hook_calls s1 = hook_calls s @ [Postprocess_message h] @ map Postprocess_message (take j hs)"
      "\<forall>u. r = Inr u \<longrightarrow> j = length hs"
      "PARAM_STORE s1 = PARAM_STORE s \<and> fn_calls s1 = fn_calls s \<and> next_ref s1 = next_ref s"
      by auto
    then show ?thesis by (intro exI [of _ "Suc j"]) auto
  qed
qed

lemma slice_from_pointer:
  assumes "p < length xs"
  shows "slice_from (- int p - 1) xs = rev (take (Suc p) (rev xs))"
proof -
  have "nat (max 0 (int (length xs) + (- int p - 1))) = length xs - Suc p"
    using assms by (simp add: max_def)
  then show ?thesis
    by (simp add: slice_from_def take_rev del: take_Suc)
qed

lemma call_fn_frame:
  "call_fn f a s = (r, s1) \<Longrightarrow>
     hook_calls s1 = hook_calls s \<and> heap s1 = heap s \<and> PYRO_STACK s1 = PYRO_STACK s \<and>
     next_ref s1 = next_ref s \<and> fn_calls s1 = Suc (fn_calls s)"
  by (cases "(f, a, s)" rule: call_fn.cases)
     (auto simp: dist_call_def param_fn_def Let_def split: option.splits)

lemma fill_value_frame:
  "fill_value m s = (r, s1) \<Longrightarrow>
     hook_calls s1 = hook_calls s \<and> heap s1 = heap s \<and> PYRO_STACK s1 = PYRO_STACK s \<and>
     next_ref s1 = next_ref s"
  by (auto simp: fill_value_def split: option.splits prod.splits sum.splits dest: call_fn_frame)

lemma apply_stack_hook_calls:
  assumes ne: "PYRO_STACK s \<noteq> []" and run: "apply_stack m s = (r, s')"
  shows "\<exists>k j. 0 < k \<and> k \<le> length (PYRO_STACK s) \<and> j \<le> k \<and>
           hook_calls s' = hook_calls s
              @ map Process_message (take k (rev (PYRO_STACK s)))
              @ map Postprocess_message (take j (rev (take k (rev (PYRO_STACK s))))) \<and>
           (\<forall>i. 0 < i \<and> i < k \<longrightarrow>
              (\<exists>mi. process_all (heap s) (take i (rev (PYRO_STACK s))) m = Inr mi \<and> \<not> msg_stop mi)) \<and>
           (\<forall>m'. r = Inr m' \<longrightarrow> j = k \<and>
              (k < length (PYRO_STACK s) \<longrightarrow>
                 (\<exists>mk. process_all (heap s) (take k (rev (PYRO_STACK s))) m = Inr mk \<and> msg_stop mk)))"
proof -
  let ?st = "PYRO_STACK s"
  let ?hs = "rev ?st"
  obtain r1 s1 where p: "process_loop (enumerate_from 0 ?hs) None m s = (r1, s1)"
    by (cases "process_loop (enumerate_from 0 ?hs) None m s")
  from process_loop_char [OF p] ne obtain k where k: "k \<le> length ?st" "0 < k"
    "s1 = s\<lparr>hook_calls := hook_calls s @ map Process_message (take k ?hs)\<rparr>"
    "\<forall>i. 0 < i \<and> i < k \<longrightarrow> (\<exists>mi. process_all (heap s) (take i ?hs) m = Inr mi \<and> \<not> msg_stop mi)"
    "case r1 of
           Inl e \<Rightarrow> process_all (heap s) (take k ?hs) m = Inl e
         | Inr (p, m1) \<Rightarrow>
             process_all (heap s) (take k ?hs) m = Inr m1 \<and>
             p = (if k = 0 then None else Some (0 + k - 1)) \<and>
             (k < length ?hs \<longrightarrow> msg_stop m1)"
    by auto
  show ?thesis
  proof (cases r1)
    case (Inl e)
    with p run have "s' = s1" "r = Inl e" by (auto simp: apply_stack_def)
    with k show ?thesis by (intro exI [of _ k] exI [of _ 0]) auto
  next
    case (Inr pm)
    obtain ptr m1 where pm: "pm = (ptr, m1)" by (cases pm)
    with Inr k(2,5) have m1: "process_all (heap s) (take k ?hs) m = Inr m1"
      "ptr = Some (k - 1)" "k < length ?st \<longrightarrow> msg_stop m1"
      by auto
    obtain r2 s2 where f: "fill_value m1 s1 = (r2, s2)" by (cases "fill_value m1 s1")
    from fill_value_frame [OF f] k(3)
    have s2: "hook_calls s2 = hook_calls s @ map Process_message (take k ?hs)"
      "PYRO_STACK s2 = ?st" by auto
    show ?thesis
    proof (cases r2)
      case (Inl e)
      with p run Inr pm f have "s' = s2" "r = Inl e" by (auto simp: apply_stack_def)
      with k s2 show ?thesis by (intro exI [of _ k] exI [of _ 0]) auto
    next
      case m2: (Inr m2)
      have sl: "slice_from (- int (k - 1) - 1) ?st = rev (take k ?hs)"
        using slice_from_pointer [of "k - 1" ?st] k(1,2) by simp
      obtain r3 s3 where q: "postprocess_loop (rev (take k ?hs)) m2 s2 = (r3, s3)"
        by (cases "postprocess_loop (rev (take k ?hs)) m2 s2")
      from postprocess_loop_char [OF q] obtain j where j: "j \<le> length (rev (take k ?hs))"
        "hook_calls s3 = hook_calls s2 @ map Postprocess_message (take j (rev (take k ?hs)))"
        "\<forall>u. r3 = Inr u \<longrightarrow> j = length (rev (take k ?hs))"
        by blast
      have res: "s' = s3" "r = (case r3 of Inl e \<Rightarrow> Inl e | Inr u \<Rightarrow> Inr m2)"
        using p run Inr pm f m2 m1(2) sl q s2(2)
        by (auto simp: apply_stack_def split: sum.splits)
      have jk: "j \<le> k" using j(1) k(1) by simp
      have fin: "\<forall>m'. r = Inr m' \<longrightarrow> j = k" using res(2) j(3) k(1) by (auto split: sum.splits)
      from k(1,2,4) jk j(2) s2(1) res(1) fin m1(1,3) show ?thesis
        by (intro exI [of _ k] exI [of _ j]) auto
    qed
  qed
qed

text \<open>
  A dispatch over a non-empty stack, taken apart: the number \<open>k\<close> of handlers the first
  loop reaches, the message they leave, the call of the descriptor, and the second loop
  over the same \<open>k\<close> handlers in entry order.
\<close>

lemma apply_stack_cases:
  assumes ne: "PYRO_STACK s \<noteq> []" and run: "apply_stack m s = (r, s')"
  obtains k where "0 < k" and "k \<le> length (PYRO_STACK s)"
    and "\<forall>i. 0 < i \<and> i < k \<longrightarrow>
           (\<exists>mi. process_all (heap s) (take i (rev (PYRO_STACK s))) m = Inr mi \<and> \<not> msg_stop mi)"
    and "(\<exists>e. process_all (heap s) (take k (rev (PYRO_STACK s))) m = Inl e \<and> r = Inl e \<and>
              s' = s\<lparr>hook_calls := hook_calls s @ map Process_message (take k (rev (PYRO_STACK s)))\<rparr>) \<or>
         (\<exists>m1 r2 s2.
            process_all (heap s) (take k (rev (PYRO_STACK s))) m = Inr m1 \<and>
            (k < length (PYRO_STACK s) \<longrightarrow> msg_stop m1) \<and>
            fill_value m1
              (s\<lparr>hook_calls := hook_calls s @ map Process_message (take k (rev (PYRO_STACK s)))\<rparr>)
              = (r2, s2) \<and>
            ((\<exists>e. r2 = Inl e \<and> r = Inl e \<and> s' = s2) \<or>
             (\<exists>m2 r3. r2 = Inr m2 \<and>
                postprocess_loop (rev (take k (rev (PYRO_STACK s)))) m2 s2 = (r3, s') \<and>
                r = (case r3 of Inl e \<Rightarrow> Inl e | Inr u \<Rightarrow> Inr m2))))"
proof -
  let ?st = "PYRO_STACK s"
  let ?hs = "rev ?st"
  obtain r1 s1 where p: "process_loop (enumerate_from 0 ?hs) None m s = (r1, s1)"
    by (cases "process_loop (enumerate_from 0 ?hs) None m s")
  from process_loop_char [OF p] ne obtain k where k: "k \<le> length ?st" "0 < k"
    "s1 = s\<lparr>hook_calls := hook_calls s @ map Process_message (take k ?hs)\<rparr>"
    "\<forall>i. 0 < i \<and> i < k \<longrightarrow> (\<exists>mi. process_all (heap s) (take i ?hs) m = Inr mi \<and> \<not> msg_stop mi)"
    "case r1 of
           Inl e \<Rightarrow> process_all (heap s) (take k ?hs) m = Inl e
         | Inr (p, m1) \<Rightarrow>
             process_all (heap s) (take k ?hs) m = Inr m1 \<and>
             p = (if k = 0 then None else Some (0 + k - 1)) \<and>
             (k < length ?hs \<longrightarrow> msg_stop m1)"
    by auto
  show thesis
  proof (cases r1)
    case (Inl e)
    with p run have "s' = s1" "r = Inl e" by (auto simp: apply_stack_def)
    with k Inl show thesis by (intro that [of k]) auto
  next
    case (Inr pm)
    obtain ptr m1 where pm: "pm = (ptr, m1)" by (cases pm)
    with Inr k(2,5) have m1: "process_all (heap s) (take k ?hs) m = Inr m1"
      "ptr = Some (k - 1)" "k < length ?st \<longrightarrow> msg_stop m1"
      by auto
    obtain r2 s2 where f: "fill_value m1 s1 = (r2, s2)" by (cases "fill_value m1 s1")
    from fill_value_frame [OF f] k(3) have s2: "PYRO_STACK s2 = ?st" by auto
    show thesis
    proof (cases r2)
      case (Inl e)
      with p run Inr pm f have "s' = s2" "r = Inl e" by (auto simp: apply_stack_def)
      with k m1 f Inl show thesis by (intro that [of k]) auto
    next
      case m2: (Inr m2)
      have sl: "slice_from (- int (k - 1) - 1) ?st = rev (take k ?hs)"
        using slice_from_pointer [of "k - 1" ?st] k(1,2) by simp
      obtain r3 s3 where q: "postprocess_loop (rev (take k ?hs)) m2 s2 = (r3, s3)"
        by (cases "postprocess_loop (rev (take k ?hs)) m2 s2")
      have res: "s' = s3" "r = (case r3 of Inl e \<Rightarrow> Inl e | Inr u \<Rightarrow> Inr m2)"
        using p run Inr pm f m2 m1(2) sl q s2
        by (auto simp: apply_stack_def split: sum.splits)
      with k m1 f m2 q show thesis by (intro that [of k]) auto
    qed
  qed
qed

lemma process_all_keeps:
  "process_all hp hs m = Inr m1 \<Longrightarrow>
     msg_name m1 = msg_name m \<and> msg_type m1 = msg_type m \<and> msg_args m1 = msg_args m"
proof (induction hs arbitrary: m)
  case Nil
  then show ?case by simp
next
  case (Cons h hs)
  then show ?case
    by (auto split: sum.splits dest!: process_message_keeps)
qed

lemma fill_value_keeps:
  "fill_value m s = (Inr m1, s1) \<Longrightarrow>
     msg_name m1 = msg_name m \<and> msg_type m1 = msg_type m \<and> msg_args m1 = msg_args m \<and>
     msg_fn m1 = msg_fn m \<and> msg_stop m1 = msg_stop m \<and> msg_value m1 \<noteq> None"
  by (auto simp: fill_value_def split: option.splits prod.splits sum.splits)

lemma postprocess_loop_preserves:
  assumes "\<And>h h'. P h \<Longrightarrow> postprocess_message h m = Inr h' \<Longrightarrow> P h'"
  shows "postprocess_loop hs m s = (r, s1) \<Longrightarrow> P (heap s t) \<Longrightarrow> P (heap s1 t)"
proof (induction hs arbitrary: s)
  case Nil
  then show ?case by simp
next
  case (Cons h hs)
  show ?case
  proof (cases "postprocess_message (heap s h) m")
    case (Inl e)
    with Cons.prems show ?thesis by (auto simp: Let_def)
  next
    case (Inr h1)
    let ?s1 = "s\<lparr>hook_calls := hook_calls s @ [Postprocess_message h], heap := (heap s)(h := h1)\<rparr>"
    from Inr Cons.prems have q: "postprocess_loop hs m ?s1 = (r, s1)" by (auto simp: Let_def)
    have "P (heap ?s1 t)" using Cons.prems(2) assms [OF _ Inr] by auto
    from Cons.IH [OF q this] show ?thesis .
  qed
qed

lemma postprocess_loop_other:
  "postprocess_loop hs m s = (r, s1) \<Longrightarrow> t \<notin> set hs \<Longrightarrow> heap s1 t = heap s t"
proof (induction hs arbitrary: s)
  case Nil
  then show ?case by simp
next
  case (Cons h hs)
  show ?case
  proof (cases "postprocess_message (heap s h) m")
    case (Inl e)
    with Cons.prems show ?thesis by (auto simp: Let_def)
  next
    case (Inr h1)
    let ?s1 = "s\<lparr>hook_calls := hook_calls s @ [Postprocess_message h], heap := (heap s)(h := h1)\<rparr>"
    from Inr Cons.prems have q: "postprocess_loop hs m ?s1 = (r, s1)" by (auto simp: Let_def)
    from Cons.IH [OF q] Cons.prems(2) show ?thesis by auto
  qed
qed

subsection \<open>A block hides sample sites from what is outside it\<close>

lemma sample_free_postprocess:
  "sample_free h \<Longrightarrow> msg_type m \<noteq> Sample \<Longrightarrow> postprocess_message h m = Inr h' \<Longrightarrow> sample_free h'"
  by (cases h) (auto simp: sample_free_def split: if_splits)

lemma block_postprocess:
  "h = Block f \<Longrightarrow> postprocess_message h m = Inr h' \<Longrightarrow> h' = Block f"
  by auto

lemma apply_stack_block_scope:
  assumes st: "PYRO_STACK s = pre @ t # b # inner"
    and t: "t \<notin> set inner" "t \<noteq> b"
    and b: "heap s b = Block is_sample"
    and P: "sample_free (heap s t)"
    and run: "apply_stack m s = (r, s')"
  shows "sample_free (heap s' t) \<and> heap s' b = Block is_sample \<and> next_ref s' = next_ref s"
proof -
  let ?hs = "rev (PYRO_STACK s)"
  have ne: "PYRO_STACK s \<noteq> []" using st by simp
  have hs: "?hs = (rev inner @ [b]) @ t # rev pre" using st by simp
  show ?thesis
  proof (rule apply_stack_cases [OF ne run])
  fix k
  assume k: "0 < k" "k \<le> length (PYRO_STACK s)"
    "\<forall>i. 0 < i \<and> i < k \<longrightarrow>
           (\<exists>mi. process_all (heap s) (take i ?hs) m = Inr mi \<and> \<not> msg_stop mi)"
    "(\<exists>e. process_all (heap s) (take k ?hs) m = Inl e \<and> r = Inl e \<and>
              s' = s\<lparr>hook_calls := hook_calls s @ map Process_message (take k ?hs)\<rparr>) \<or>
         (\<exists>m1 r2 s2.
            process_all (heap s) (take k ?hs) m = Inr m1 \<and>
            (k < length (PYRO_STACK s) \<longrightarrow> msg_stop m1) \<and>
            fill_value m1 (s\<lparr>hook_calls := hook_calls s @ map Process_message (take k ?hs)\<rparr>)
              = (r2, s2) \<and>
            ((\<exists>e. r2 = Inl e \<and> r = Inl e \<and> s' = s2) \<or>
             (\<exists>m2 r3. r2 = Inr m2 \<and>
                postprocess_loop (rev (take k ?hs)) m2 s2 = (r3, s') \<and>
                r = (case r3 of Inl e \<Rightarrow> Inl e | Inr u \<Rightarrow> Inr m2))))"
  from k(4) show ?thesis
  proof (elim disjE exE conjE)
    fix e
    assume "s' = s\<lparr>hook_calls := hook_calls s @ map Process_message (take k ?hs)\<rparr>"
    with b P show ?thesis by simp
  next
    fix m1 r2 s2 e
    assume f: "fill_value m1 (s\<lparr>hook_calls := hook_calls s @ map Process_message (take k ?hs)\<rparr>) = (r2, s2)"
      and s': "s' = s2"
    from fill_value_frame [OF f] have "heap s2 = heap s" "next_ref s2 = next_ref s" by simp_all
    with s' b P show ?thesis by simp
  next
    fix m1 r2 s2 m2 r3
    assume m1: "process_all (heap s) (take k ?hs) m = Inr m1"
      and f: "fill_value m1 (s\<lparr>hook_calls := hook_calls s @ map Process_message (take k ?hs)\<rparr>) = (r2, s2)"
      and r2: "r2 = Inr m2"
      and q: "postprocess_loop (rev (take k ?hs)) m2 s2 = (r3, s')"
    from fill_value_frame [OF f] have s2: "heap s2 = heap s" "next_ref s2 = next_ref s" by simp_all
    have ty: "msg_type m2 = msg_type m"
      using process_all_keeps [OF m1] fill_value_keeps [OF f [unfolded r2]] by simp
    have nr: "next_ref s' = next_ref s"
      using postprocess_loop_char [OF q] s2 by auto
    have keep: "\<And>h h'. h = Block is_sample \<Longrightarrow> postprocess_message h m2 = Inr h' \<Longrightarrow> h' = Block is_sample"
      by auto
    have "heap s2 b = Block is_sample" using b s2 by simp
    from postprocess_loop_preserves [where P = "\<lambda>h. h = Block is_sample" and t = b, OF keep q this]
    have bl: "heap s' b = Block is_sample" .
    have "sample_free (heap s' t)"
    proof (cases "msg_type m = Sample")
      case False
      with ty have "msg_type m2 \<noteq> Sample" by simp
      have "sample_free (heap s2 t)" using P s2 by simp
      from postprocess_loop_preserves [where P = sample_free and t = t, OF sample_free_postprocess [OF _ \<open>msg_type m2 \<noteq> Sample\<close>] q this]
      show ?thesis .
    next
      case True
      have "k \<le> length inner + 1"
      proof (rule ccontr)
        assume "\<not> k \<le> length inner + 1"
        then have "0 < length inner + 1 \<and> length inner + 1 < k" by simp
        from k(3) [rule_format, OF this]
        obtain mi where mi: "process_all (heap s) (take (length inner + 1) ?hs) m = Inr mi"
          "\<not> msg_stop mi" by blast
        have "take (length inner + 1) ?hs = rev inner @ [b]" unfolding hs by simp
        with mi(1) obtain m' where m': "process_all (heap s) (rev inner) m = Inr m'"
          "process_message (heap s b) m' = Inr mi"
          by (auto simp: process_all_append split: sum.splits)
        from process_all_keeps [OF m'(1)] True have "is_sample m'" by (simp add: is_sample_def)
        with m'(2) b mi(2) show False by auto
      qed
      then have "take k ?hs = take k (rev inner @ [b])"
        unfolding hs by (cases "k - length inner", auto)
      then have "set (take k ?hs) \<subseteq> set inner \<union> {b}"
        using set_take_subset [of k "rev inner @ [b]"] by auto
      with t have "t \<notin> set (rev (take k ?hs))" by auto
      from postprocess_loop_other [OF q this] P s2 show ?thesis by simp
    qed
    with bl nr show ?thesis by simp
  qed
qed
qed

lemma sample_block_scope:
  assumes "PYRO_STACK s = pre @ t # b # inner" "t \<notin> set inner" "t \<noteq> b"
    "heap s b = Block is_sample" "sample_free (heap s t)" "sample n d obs s = (r, s')"
  shows "sample_free (heap s' t) \<and> heap s' b = Block is_sample \<and> next_ref s' = next_ref s"
proof -
  let ?m = "\<lparr>msg_type = Sample, msg_name = n, msg_fn = DistFn d, msg_args = NoArgs,
             msg_value = obs, msg_stop = False\<rparr>"
  obtain r1 where "apply_stack ?m s = (r1, s')"
    using assms(1,6) by (auto simp: sample_def split: prod.splits sum.splits)
  from apply_stack_block_scope [OF assms(1-5) this] show ?thesis .
qed

lemma param_block_scope:
  assumes "PYRO_STACK s = pre @ t # b # inner" "t \<notin> set inner" "t \<noteq> b"
    "heap s b = Block is_sample" "sample_free (heap s t)" "param n iv c s = (r, s')"
  shows "sample_free (heap s' t) \<and> heap s' b = Block is_sample \<and> next_ref s' = next_ref s"
proof -
  let ?m = "\<lparr>msg_type = Param, msg_name = n, msg_fn = ParamFn n, msg_args = ParamArgs iv c,
             msg_value = None, msg_stop = False\<rparr>"
  obtain r1 where "apply_stack ?m s = (r1, s')"
    using assms(1,6) by (auto simp: param_def split: prod.splits sum.splits)
  from apply_stack_block_scope [OF assms(1-5) this] show ?thesis .
qed

lemma run_block_scope:
  "run p s = (r, s') \<Longrightarrow> PYRO_STACK s = pre @ t # b # inner \<Longrightarrow> t \<notin> set inner \<Longrightarrow> t \<noteq> b \<Longrightarrow>
   heap s b = Block is_sample \<Longrightarrow> sample_free (heap s t) \<Longrightarrow> t < next_ref s \<Longrightarrow> b < next_ref s \<Longrightarrow>
   sample_free (heap s' t) \<and> heap s' b = Block is_sample \<and> next_ref s \<le> next_ref s'"
proof (induction p arbitrary: s r s' inner)
  case Done
  then show ?case by simp
next
  case (SampleP n d obs k)
  obtain r1 s1 where c: "sample n d obs s = (r1, s1)" by (cases "sample n d obs s")
  from sample_block_scope [OF SampleP.prems(2-6) c]
  have s1: "sample_free (heap s1 t)" "heap s1 b = Block is_sample" "next_ref s1 = next_ref s"
    by simp_all
  show ?case
  proof (cases r1)
    case (Inl e)
    with c SampleP.prems(1) s1 show ?thesis by simp
  next
    case (Inr v)
    with c SampleP.prems(1) have "run (k v) s1 = (r, s')" by simp
    from SampleP.IH [OF _ this, of inner] sample_stack [OF c] SampleP.prems s1
    show ?thesis by simp
  qed
next
  case (ParamP n iv c k)
  obtain r1 s1 where c: "param n iv c s = (r1, s1)" by (cases "param n iv c s")
  from param_block_scope [OF ParamP.prems(2-6) c]
  have s1: "sample_free (heap s1 t)" "heap s1 b = Block is_sample" "next_ref s1 = next_ref s"
    by simp_all
  show ?case
  proof (cases r1)
    case (Inl e)
    with c ParamP.prems(1) s1 show ?thesis by simp
  next
    case (Inr v)
    with c ParamP.prems(1) have "run (k v) s1 = (r, s')" by simp
    from ParamP.IH [OF _ this, of inner] param_stack [OF c] ParamP.prems s1
    show ?thesis by simp
  qed
next
  case (WithP h body rest)
  let ?ref = "next_ref s"
  let ?s1 = "s\<lparr>heap := (heap s)(?ref := h), next_ref := Suc ?ref\<rparr>"
  have n: "new_handler h s = (?ref, ?s1)" by (simp add: new_handler_def)
  have ref: "?ref \<noteq> t" "?ref \<noteq> b" using WithP.prems(7,8) by simp_all
  obtain rb sb where bd: "run body (enter ?ref ?s1) = (rb, sb)"
    by (cases "run body (enter ?ref ?s1)")
  have e: "PYRO_STACK (enter ?ref ?s1) = pre @ t # b # (inner @ [?ref])"
    "heap (enter ?ref ?s1) b = Block is_sample" "sample_free (heap (enter ?ref ?s1) t)"
    "next_ref (enter ?ref ?s1) = Suc ?ref"
    using WithP.prems(2,5,6) ref by (auto simp: enter_def Let_def split: handler.splits)
  have "t \<notin> set (inner @ [?ref])" using WithP.prems(3) ref by simp
  from WithP.IH(1) [OF bd e(1) this WithP.prems(4) e(2,3)] e(4) WithP.prems(7,8)
  have sb: "sample_free (heap sb t)" "heap sb b = Block is_sample" "Suc ?ref \<le> next_ref sb"
    by simp_all
  have stb: "PYRO_STACK sb = PYRO_STACK s @ [?ref]"
    using run_stack [OF bd] e(1) WithP.prems(2) by simp
  let ?s2 = "sb\<lparr>PYRO_STACK := PYRO_STACK s\<rparr>"
  have l: "leave ?ref (rb, sb) = (rb, ?s2)"
    using leave_stack [of "(rb, sb)" "PYRO_STACK s" ?ref] stb by simp
  show ?case
  proof (cases rb)
    case (Inl e)
    with WithP.prems(1) n bd l have "s' = ?s2" by simp
    with sb show ?thesis by simp
  next
    case (Inr u)
    with WithP.prems(1) n bd l have "run rest ?s2 = (r, s')" by simp
    from WithP.IH(2) [OF this, of inner] WithP.prems(2,3,4,7,8) sb
    show ?thesis by simp
  qed
qed

lemma get_trace_block_no_sample:
  assumes g: "get_trace (WithP (Block is_sample) M Done) s = (Inr tr, s')"
  shows "Sample \<notin> set (map (msg_type \<circ> snd) tr)"
proof -
  let ?t = "next_ref s"
  let ?b = "Suc ?t"
  let ?s0 = "enter ?t (s\<lparr>heap := (heap s)(?t := Trace []), next_ref := ?b\<rparr>)"
  let ?sA = "enter ?b (?s0\<lparr>heap := (heap ?s0)(?b := Block is_sample), next_ref := Suc ?b\<rparr>)"
  have s0: "PYRO_STACK ?s0 = PYRO_STACK s @ [?t]" "heap ?s0 ?t = Trace []" "next_ref ?s0 = ?b"
    by (simp_all add: enter_def)
  have sA: "PYRO_STACK ?sA = PYRO_STACK s @ ?t # ?b # []" "heap ?sA ?b = Block is_sample"
    "sample_free (heap ?sA ?t)" "?t < next_ref ?sA" "?b < next_ref ?sA"
    by (simp_all add: enter_def sample_free_def)
  obtain rb sb where bd: "run M ?sA = (rb, sb)" by (cases "run M ?sA")
  from run_block_scope [OF bd sA(1) _ _ sA(2,3,4,5)]
  have sb: "sample_free (heap sb ?t)" by simp
  have stb: "PYRO_STACK sb = (PYRO_STACK s @ [?t]) @ [?b]"
    using run_stack [OF bd] sA(1) by simp
  let ?s2 = "sb\<lparr>PYRO_STACK := PYRO_STACK s @ [?t]\<rparr>"
  have l: "leave ?b (rb, sb) = (rb, ?s2)"
    using leave_stack [of "(rb, sb)" "PYRO_STACK s @ [?t]" ?b] stb by simp
  have w: "run (WithP (Block is_sample) M Done) ?s0 = (rb, ?s2)"
    using bd l s0(3) by (cases rb) (simp_all add: new_handler_def)
  have l2: "leave ?t (rb, ?s2) = (rb, sb\<lparr>PYRO_STACK := PYRO_STACK s\<rparr>)"
    using leave_stack [of "(rb, ?s2)" "PYRO_STACK s" ?t] by simp
  from g w l2 have "heap sb ?t = Trace tr"
    by (auto simp: get_trace_def new_handler_def split: sum.splits handler.splits)
  with sb show ?thesis by (simp add: sample_free_def)
qed

lemma slice_from_two: "slice_from (- 2) (pre @ [b, t]) = [b, t]"
  by (simp add: slice_from_def)

lemma sample_inside_block:
  assumes st: "PYRO_STACK s = pre @ [b, t2]"
    and b: "heap s b = Block is_sample"
    and t2: "heap s t2 = Trace tr2"
    and x: "x \<notin> fst ` set tr2"
  shows "sample x d obs s =
     (let v = (case obs of None \<Rightarrow> draw d (fn_calls s) | Some ob \<Rightarrow> ob);
          site = \<lparr>msg_type = Sample, msg_name = x, msg_fn = DistFn d, msg_args = NoArgs,
                  msg_value = Some v, msg_stop = True\<rparr>
      in (Inr (Some v),
          s\<lparr>heap := (heap s)(t2 := Trace (tr2 @ [(x, site)])),
            fn_calls := (case obs of None \<Rightarrow> Suc (fn_calls s) | Some ob \<Rightarrow> fn_calls s),
            hook_calls := hook_calls s @ [Process_message t2, Process_message b,
                                         Postprocess_message b, Postprocess_message t2]\<rparr>))"
proof -
  have ne: "b \<noteq> t2" using b t2 by auto
  have idem: "(heap s)(b := Block is_sample) = heap s" using b by (simp add: fun_upd_idem)
  show ?thesis
    using st b t2 x ne idem
    by (cases obs)
       (simp_all add: sample_def apply_stack_def fill_value_def dist_call_def is_sample_def
          slice_from_two Let_def)
qed

subsection \<open>Dispatch order and block scoping\<close>

text \<open>
  Claim C1. A dispatch over a non-empty stack calls the \<^verbatim>\<open>process_message\<close> hooks of the
  \<open>k\<close> most recently entered handlers, innermost first, for some \<open>k \<ge> 1\<close>: none of the
  first \<open>k - 1\<close> hooks left \<^verbatim>\<open>stop\<close> set, and when \<open>k\<close> is less than the depth of the
  stack the \<open>k\<close>-th did. It then calls \<^verbatim>\<open>postprocess_message\<close> on those same \<open>k\<close>
  handlers in entry order (on all of them when the dispatch returns, on the first \<open>j\<close>
  of them when a hook or the descriptor raises), and no other hook. So the trace that
  \<^verbatim>\<open>trace(block(M, hide_fn=is_sample)).get_trace()\<close> returns has no sample site, for
  every model \<open>M\<close>; and a sample site issued with a trace entered innermost, inside such a
  block, is recorded in that trace, calling the hooks of those two handlers only.
\<close>

theorem dispatch_order_block_scoping:
  "(PYRO_STACK s \<noteq> [] \<longrightarrow> apply_stack m s = (r, s') \<longrightarrow>
      (\<exists>k j. 0 < k \<and> k \<le> length (PYRO_STACK s) \<and> j \<le> k \<and>
           hook_calls s' = hook_calls s
              @ map Process_message (take k (rev (PYRO_STACK s)))
              @ map Postprocess_message (take j (rev (take k (rev (PYRO_STACK s))))) \<and>
           (\<forall>i. 0 < i \<and> i < k \<longrightarrow>
              (\<exists>mi. process_all (heap s) (take i (rev (PYRO_STACK s))) m = Inr mi \<and> \<not> msg_stop mi)) \<and>
           (\<forall>m'. r = Inr m' \<longrightarrow> j = k \<and>
              (k < length (PYRO_STACK s) \<longrightarrow>
                 (\<exists>mk. process_all (heap s) (take k (rev (PYRO_STACK s))) m = Inr mk \<and> msg_stop mk))))) \<and>
   (get_trace (WithP (Block is_sample) M Done) u = (Inr tr, u') \<longrightarrow>
      Sample \<notin> set (map (msg_type \<circ> snd) tr)) \<and>
   (PYRO_STACK w = pre @ [b, t2] \<longrightarrow> heap w b = Block is_sample \<longrightarrow> heap w t2 = Trace tr2 \<longrightarrow>
    x \<notin> fst ` set tr2 \<longrightarrow>
      sample x d obs w =
        (let v = (case obs of None \<Rightarrow> draw d (fn_calls w) | Some ob \<Rightarrow> ob);
             site = \<lparr>msg_type = Sample, msg_name = x, msg_fn = DistFn d, msg_args = NoArgs,
                     msg_value = Some v, msg_stop = True\<rparr>
         in (Inr (Some v),
             w\<lparr>heap := (heap w)(t2 := Trace (tr2 @ [(x, site)])),
               fn_calls := (case obs of None \<Rightarrow> Suc (fn_calls w) | Some ob \<Rightarrow> fn_calls w),
               hook_calls := hook_calls w @ [Process_message t2, Process_message b,
                                            Postprocess_message b, Postprocess_message t2]\<rparr>)))"
  using apply_stack_hook_calls [of s m r s'] get_trace_block_no_sample [of M u tr u']
    sample_inside_block [of w pre b t2 tr2 x d obs]
  by blast

theorem dispatch_order_block_scoping_witness:
  "PYRO_STACK state3 \<noteq> [] \<and>
   hook_calls (snd (apply_stack msg_x state3)) =
     [Process_message 2, Process_message 1, Postprocess_message 1, Postprocess_message 2] \<and>
   fst (get_trace (WithP (Block is_sample) model_px Done) state0) =
     Inr [(''p'', \<lparr>msg_type = Param, msg_name = ''p'', msg_fn = ParamFn ''p'',
                   msg_args = ParamArgs (Some 5) shift, msg_value = Some 5, msg_stop = False\<rparr>)] \<and>
   PYRO_STACK state3 = [0] @ [1, 2] \<and> heap state3 1 = Block is_sample \<and>
   heap state3 2 = Trace [] \<and> ''x'' \<notin> fst ` set ([] :: int trace_dict) \<and>
   heap (snd (sample ''x'' dist_a None state3)) 2 =
     Trace [(''x'', \<lparr>msg_type = Sample, msg_name = ''x'', msg_fn = DistFn dist_a,
                     msg_args = NoArgs, msg_value = Some 7, msg_stop = True\<rparr>)] \<and>
   heap (snd (sample ''x'' dist_a None state3)) 0 = Trace []"
proof -
  let ?site = "\<lparr>msg_type = Param, msg_name = ''p'', msg_fn = ParamFn ''p'',
                msg_args = ParamArgs (Some 5) shift, msg_value = Some (5::int), msg_stop = False\<rparr>"
  note T = dispatch_order_block_scoping [where s = state3 and m = msg_x
      and r = "fst (apply_stack msg_x state3)" and s' = "snd (apply_stack msg_x state3)"
      and M = model_px and u = state0 and tr = "[(''p'', ?site)]"
      and u' = "snd (get_trace (WithP (Block is_sample) model_px Done) state0)"
      and w = state3 and pre = "[0]" and b = 1 and ?t2.0 = 2 and ?tr2.0 = "[]" and x = "''x''"
      and d = dist_a and obs = None]
  have h1: "PYRO_STACK state3 \<noteq> []" "PYRO_STACK state3 = [0] @ [1, 2]"
    "heap state3 1 = Block is_sample" "heap state3 2 = Trace []"
    by (simp_all add: state3_def)
  have h2: "fst (get_trace (WithP (Block is_sample) model_px Done) state0) = Inr [(''p'', ?site)]"
    by (simp add: get_trace_def new_handler_def enter_def leave_def exit_def sample_def param_def
        apply_stack_def fill_value_def param_fn_def dist_call_def slice_from_def state0_def
        is_sample_def Let_def shift_def model_px_def)
  have h3: "hook_calls (snd (apply_stack msg_x state3)) =
     [Process_message 2, Process_message 1, Postprocess_message 1, Postprocess_message 2]"
    by (simp add: apply_stack_def fill_value_def dist_call_def slice_from_def state3_def msg_x_def
        is_sample_def Let_def)
  from T [THEN conjunct2, THEN conjunct2, rule_format, OF h1(2,3,4)]
  have h4: "sample ''x'' dist_a None state3 =
      (Inr (Some (draw dist_a (fn_calls state3))),
       state3\<lparr>heap := (heap state3)(2 := Trace [(''x'',
            \<lparr>msg_type = Sample, msg_name = ''x'', msg_fn = DistFn dist_a, msg_args = NoArgs,
              msg_value = Some (draw dist_a (fn_calls state3)), msg_stop = True\<rparr>)]),
          fn_calls := Suc (fn_calls state3),
          hook_calls := hook_calls state3 @ [Process_message 2, Process_message 1,
                                            Postprocess_message 1, Postprocess_message 2]\<rparr>)"
    by (simp add: Let_def)
  have h5: "heap (snd (sample ''x'' dist_a None state3)) 2 =
     Trace [(''x'', \<lparr>msg_type = Sample, msg_name = ''x'', msg_fn = DistFn dist_a,
                     msg_args = NoArgs, msg_value = Some 7, msg_stop = True\<rparr>)]"
    "heap (snd (sample ''x'' dist_a None state3)) 0 = Trace []"
    unfolding h4 by (simp_all add: state3_def dist_a_def)
  from h1 h2 h3 h5 show ?thesis by simp
qed

subsection \<open>When the descriptor is called\<close>

lemma fill_value_calls:
  "fill_value m s = (r, s1) \<Longrightarrow>
     fn_calls s1 = (if msg_value m = None then Suc (fn_calls s) else fn_calls s) \<and>
     (msg_value m \<noteq> None \<longrightarrow> r = Inr m \<and> s1 = s) \<and>
     (msg_value m = None \<longrightarrow>
        (\<forall>m2. r = Inr m2 \<longrightarrow>
           (\<exists>v. call_fn (msg_fn m) (msg_args m) s = (Inr v, s1) \<and> m2 = m\<lparr>msg_value := Some v\<rparr>)))"
  by (auto simp: fill_value_def split: option.splits prod.splits sum.splits dest: call_fn_frame)

lemma process_loop_state:
  assumes "process_loop (enumerate_from k hs) ptr m s = (r, s1)"
  shows "fn_calls s1 = fn_calls s \<and> heap s1 = heap s \<and> PARAM_STORE s1 = PARAM_STORE s"
proof -
  from process_loop_char [OF assms] obtain j
    where "s1 = s\<lparr>hook_calls := hook_calls s @ map Process_message (take j hs)\<rparr>"
    by blast
  then show ?thesis by simp
qed

lemma apply_stack_calls:
  assumes p: "process_loop (enumerate_from 0 (rev (PYRO_STACK s))) None m s = (Inr (ptr, m1), s1)"
    and run: "apply_stack m s = (r, s')"
  shows "fn_calls s' = (if msg_value m1 = None then Suc (fn_calls s) else fn_calls s) \<and>
         (\<forall>m'. r = Inr m' \<longrightarrow>
            (if msg_value m1 = None
             then (\<exists>v s2. call_fn (msg_fn m1) (msg_args m1) s1 = (Inr v, s2) \<and>
                          m' = m1\<lparr>msg_value := Some v\<rparr>)
             else m' = m1))"
proof -
  obtain r2 s2 where f: "fill_value m1 s1 = (r2, s2)" by (cases "fill_value m1 s1")
  note fc = fill_value_calls [OF f]
  note ps = process_loop_state [OF p]
  show ?thesis
  proof (cases r2)
    case (Inl e)
    with p f run have "s' = s2" "r = Inl e" by (auto simp: apply_stack_def)
    with fc ps show ?thesis by auto
  next
    case (Inr m2)
    show ?thesis
    proof (cases ptr)
      case None
      with p f run Inr have "s' = s2" "r = Inl UnboundLocalError" by (auto simp: apply_stack_def)
      with fc ps show ?thesis by auto
    next
      case (Some q)
      obtain r3 s3 where q: "postprocess_loop (slice_from (- int q - 1) (PYRO_STACK s2)) m2 s2 = (r3, s3)"
        by (cases "postprocess_loop (slice_from (- int q - 1) (PYRO_STACK s2)) m2 s2")
      with p f run Inr Some have res: "s' = s3" "r = (case r3 of Inl e \<Rightarrow> Inl e | Inr u \<Rightarrow> Inr m2)"
        by (auto simp: apply_stack_def split: sum.splits)
      from postprocess_loop_char [OF q] have "fn_calls s3 = fn_calls s2" by auto
      with res fc ps Inr show ?thesis by (auto split: sum.splits)
    qed
  qed
qed

lemma process_all_value:
  "process_all hp hs m = Inr m1 \<Longrightarrow> \<forall>h\<in>set hs. \<not> replays (hp h) (msg_name m) \<Longrightarrow>
     msg_value m1 = msg_value m"
proof (induction hs arbitrary: m)
  case Nil
  then show ?case by simp
next
  case (Cons h hs)
  from Cons.prems(1) obtain m0 where m0: "process_message (hp h) m = Inr m0"
    "process_all hp hs m0 = Inr m1"
    by (auto split: sum.splits)
  from process_message_keeps [OF m0(1)] Cons.prems(2)
  have "\<forall>h\<in>set hs. \<not> replays (hp h) (msg_name m0)" by simp
  from Cons.IH [OF m0(2) this] process_message_value [OF m0(1)] Cons.prems(2)
  show ?case by simp
qed

lemma sample_observed:
  assumes ne: "PYRO_STACK s \<noteq> []"
    and nr: "\<forall>h\<in>set (PYRO_STACK s). \<not> replays (heap s h) name"
    and run: "sample name d (Some ob) s = (r, s')"
  shows "fn_calls s' = fn_calls s \<and> (\<forall>v. r = Inr v \<longrightarrow> v = Some ob)"
proof -
  let ?m = "\<lparr>msg_type = Sample, msg_name = name, msg_fn = DistFn d, msg_args = NoArgs,
             msg_value = Some ob, msg_stop = False\<rparr>"
  let ?hs = "rev (PYRO_STACK s)"
  obtain r1 where a: "apply_stack ?m s = (r1, s')"
    and r: "r = (case r1 of Inl e \<Rightarrow> Inl e | Inr m' \<Rightarrow> Inr (msg_value m'))"
    using ne run by (auto simp: sample_def split: prod.splits sum.splits)
  show ?thesis
  proof (rule apply_stack_cases [OF ne a])
    fix k
    assume k: "(\<exists>e. process_all (heap s) (take k ?hs) ?m = Inl e \<and> r1 = Inl e \<and>
              s' = s\<lparr>hook_calls := hook_calls s @ map Process_message (take k ?hs)\<rparr>) \<or>
         (\<exists>m1 r2 s2.
            process_all (heap s) (take k ?hs) ?m = Inr m1 \<and>
            (k < length (PYRO_STACK s) \<longrightarrow> msg_stop m1) \<and>
            fill_value m1 (s\<lparr>hook_calls := hook_calls s @ map Process_message (take k ?hs)\<rparr>)
              = (r2, s2) \<and>
            ((\<exists>e. r2 = Inl e \<and> r1 = Inl e \<and> s' = s2) \<or>
             (\<exists>m2 r3. r2 = Inr m2 \<and>
                postprocess_loop (rev (take k ?hs)) m2 s2 = (r3, s') \<and>
                r1 = (case r3 of Inl e \<Rightarrow> Inl e | Inr u \<Rightarrow> Inr m2))))"
    have val: "msg_value m1 = Some ob" if m1: "process_all (heap s) (take k ?hs) ?m = Inr m1" for m1
    proof -
      have "\<forall>h\<in>set (take k ?hs). \<not> replays (heap s h) (msg_name ?m)"
        using nr set_take_subset [of k ?hs] by auto
      from process_all_value [OF m1 this] show ?thesis by simp
    qed
    from k show ?thesis
    proof (elim disjE exE conjE)
      fix e
      assume "r1 = Inl e" "s' = s\<lparr>hook_calls := hook_calls s @ map Process_message (take k ?hs)\<rparr>"
      with r show ?thesis by simp
    next
      fix m1 r2 s2 e
      assume m1: "process_all (heap s) (take k ?hs) ?m = Inr m1"
        and f: "fill_value m1 (s\<lparr>hook_calls := hook_calls s @ map Process_message (take k ?hs)\<rparr>) = (r2, s2)"
        and "r2 = Inl e"
      with fill_value_calls [OF f] val [OF m1] show ?thesis by simp
    next
      fix m1 r2 s2 m2 r3
      assume m1: "process_all (heap s) (take k ?hs) ?m = Inr m1"
        and f: "fill_value m1 (s\<lparr>hook_calls := hook_calls s @ map Process_message (take k ?hs)\<rparr>) = (r2, s2)"
        and r2: "r2 = Inr m2"
        and q: "postprocess_loop (rev (take k ?hs)) m2 s2 = (r3, s')"
        and r1: "r1 = (case r3 of Inl e \<Rightarrow> Inl e | Inr u \<Rightarrow> Inr m2)"
      from fill_value_calls [OF f] val [OF m1] r2
      have "m2 = m1" "fn_calls s2 = fn_calls s" by simp_all
      moreover from postprocess_loop_char [OF q] have "fn_calls s' = fn_calls s2" by auto
      ultimately show ?thesis using r r1 val [OF m1] by (auto split: sum.splits)
    qed
  qed
qed

subsection \<open>The descriptor is called exactly when the value is unset\<close>

text \<open>
  Claim C2. When the first loop of a dispatch ends with the message \<open>m1\<close>, the descriptor
  is called once if the value of \<open>m1\<close> is \<^verbatim>\<open>None\<close> and is not called otherwise; the message
  returned is \<open>m1\<close> with the value the call returned, or \<open>m1\<close> itself. In particular
  \<^verbatim>\<open>sample(name, d, obs)\<close> with an observation, under at least one handler and no replay
  whose trace has the name, calls no descriptor and, when it returns, returns \<open>obs\<close>.
\<close>

theorem descriptor_called_iff_unset:
  "(process_loop (enumerate_from 0 (rev (PYRO_STACK s))) None m s = (Inr (ptr, m1), s1) \<longrightarrow>
    apply_stack m s = (r, s') \<longrightarrow>
      fn_calls s' = (if msg_value m1 = None then Suc (fn_calls s) else fn_calls s) \<and>
      (\<forall>m'. r = Inr m' \<longrightarrow>
         (if msg_value m1 = None
          then (\<exists>v s2. call_fn (msg_fn m1) (msg_args m1) s1 = (Inr v, s2) \<and>
                       m' = m1\<lparr>msg_value := Some v\<rparr>)
          else m' = m1))) \<and>
   (PYRO_STACK u \<noteq> [] \<longrightarrow> (\<forall>h\<in>set (PYRO_STACK u). \<not> replays (heap u h) name) \<longrightarrow>
    sample name d (Some ob) u = (r', u') \<longrightarrow>
      fn_calls u' = fn_calls u \<and> (\<forall>v. r' = Inr v \<longrightarrow> v = Some ob))"
  using apply_stack_calls [of s m ptr m1 s1 r s'] sample_observed [of u name d ob r' u']
  by blast

theorem descriptor_called_iff_unset_witness:
  "process_loop (enumerate_from 0 (rev (PYRO_STACK state3))) None msg_x state3 =
     (Inr (Some 1, msg_x\<lparr>msg_stop := True\<rparr>),
      state3\<lparr>hook_calls := [Process_message 2, Process_message 1]\<rparr>) \<and>
   msg_value (msg_x\<lparr>msg_stop := True\<rparr>) = None \<and>
   fn_calls (snd (apply_stack msg_x state3)) = Suc (fn_calls state3) \<and>
   PYRO_STACK state3 = [0, 1, 2] \<and> \<not> replays (heap state3 0) ''x'' \<and>
   \<not> replays (heap state3 1) ''x'' \<and> \<not> replays (heap state3 2) ''x'' \<and>
   fst (sample ''x'' dist_a (Some 42) state3) = Inr (Some 42) \<and>
   fn_calls (snd (sample ''x'' dist_a (Some 42) state3)) = fn_calls state3"
proof -
  note T = descriptor_called_iff_unset [where s = state3 and m = msg_x and ptr = "Some 1"
      and ?m1.0 = "msg_x\<lparr>msg_stop := True\<rparr>"
      and ?s1.0 = "state3\<lparr>hook_calls := [Process_message 2, Process_message 1]\<rparr>"
      and r = "fst (apply_stack msg_x state3)" and s' = "snd (apply_stack msg_x state3)"
      and u = state3 and name = "''x''" and d = dist_a and ob = 42
      and r' = "fst (sample ''x'' dist_a (Some 42) state3)"
      and u' = "snd (sample ''x'' dist_a (Some 42) state3)"]
  have h1: "process_loop (enumerate_from 0 (rev (PYRO_STACK state3))) None msg_x state3 =
     (Inr (Some 1, msg_x\<lparr>msg_stop := True\<rparr>),
      state3\<lparr>hook_calls := [Process_message 2, Process_message 1]\<rparr>)"
    by (simp add: state3_def msg_x_def is_sample_def)
  have h2: "msg_value (msg_x\<lparr>msg_stop := True\<rparr>) = None" by (simp add: msg_x_def)
  have h3: "PYRO_STACK state3 \<noteq> []" "\<forall>h\<in>set (PYRO_STACK state3). \<not> replays (heap state3 h) ''x''"
    by (simp_all add: state3_def replays_def)
  have h4: "fst (sample ''x'' dist_a (Some 42) state3) = Inr (Some 42)"
    by (simp add: sample_def apply_stack_def fill_value_def slice_from_def state3_def
        is_sample_def Let_def)
  from T [THEN conjunct1, rule_format, OF h1] h2
  have c1: "fn_calls (snd (apply_stack msg_x state3)) = Suc (fn_calls state3)" by simp
  from T [THEN conjunct2] h3
  have c2: "fn_calls (snd (sample ''x'' dist_a (Some 42) state3)) = fn_calls state3" by simp
  have h5: "PYRO_STACK state3 = [0, 1, 2]" "\<not> replays (heap state3 0) ''x''"
    "\<not> replays (heap state3 1) ''x''" "\<not> replays (heap state3 2) ''x''"
    by (simp_all add: state3_def replays_def)
  from h1 h2 h4 h5 c1 c2 show ?thesis by simp
qed

subsection \<open>Replay\<close>

lemma process_message_stop:
  "process_message h m = Inr m1 \<Longrightarrow> \<forall>f. h \<noteq> Block f \<Longrightarrow> msg_stop m1 = msg_stop m"
  by (cases h) (auto split: option.splits if_splits descriptor.splits)

lemma process_all_stop:
  "process_all hp hs m = Inr m1 \<Longrightarrow> \<forall>h\<in>set hs. \<forall>f. hp h \<noteq> Block f \<Longrightarrow>
     msg_stop m1 = msg_stop m"
proof (induction hs arbitrary: m)
  case Nil
  then show ?case by simp
next
  case (Cons h hs)
  from Cons.prems(1) obtain m0 where m0: "process_message (hp h) m = Inr m0"
    "process_all hp hs m0 = Inr m1"
    by (auto split: sum.splits)
  from Cons.IH [OF m0(2)] process_message_stop [OF m0(1)] Cons.prems(2)
  show ?case by simp
qed

lemma process_message_no_hide:
  "process_message h m = Inr m1 \<Longrightarrow> \<forall>f. h = Block f \<longrightarrow> \<not> f m \<Longrightarrow> msg_stop m1 = msg_stop m"
  by (cases h) (auto split: option.splits if_splits descriptor.splits)

lemma process_all_no_hide:
  "process_all hp hs m = Inr m1 \<Longrightarrow>
   \<forall>h\<in>set hs. \<forall>f m'. hp h = Block f \<longrightarrow> msg_name m' = msg_name m \<longrightarrow>
      msg_type m' = msg_type m \<longrightarrow> \<not> f m' \<Longrightarrow>
   msg_stop m1 = msg_stop m"
proof (induction hs arbitrary: m)
  case Nil
  then show ?case by simp
next
  case (Cons h hs)
  from Cons.prems(1) obtain m0 where m0: "process_message (hp h) m = Inr m0"
    "process_all hp hs m0 = Inr m1"
    by (auto split: sum.splits)
  from process_message_keeps [OF m0(1)]
  have k: "msg_name m0 = msg_name m" "msg_type m0 = msg_type m" by simp_all
  have "\<forall>f. hp h = Block f \<longrightarrow> \<not> f m" using Cons.prems(2) by auto
  from process_message_no_hide [OF m0(1) this] have s0: "msg_stop m0 = msg_stop m" .
  have "\<forall>h\<in>set hs. \<forall>f m'. hp h = Block f \<longrightarrow> msg_name m' = msg_name m0 \<longrightarrow>
      msg_type m' = msg_type m0 \<longrightarrow> \<not> f m'"
    using Cons.prems(2) k by auto
  from Cons.IH [OF m0(2) this] s0 show ?case by simp
qed

text \<open>
  A dispatch that has a replay on the stack, no block further in that hides a message of
  this name and kind, and no replay with the name further out: the value is the one the
  reference trace has, and no descriptor is called.
\<close>

lemma apply_stack_replay:
  assumes st: "PYRO_STACK s = pre @ rp # inner"
    and rp: "heap s rp = Replay G" "map_of G (msg_name m) = Some site" "msg_value site = Some v"
    and outer: "\<forall>h\<in>set pre. \<not> replays (heap s h) (msg_name m)"
    and inner: "\<forall>h\<in>set inner. \<forall>f m'. heap s h = Block f \<longrightarrow> msg_name m' = msg_name m \<longrightarrow>
                  msg_type m' = msg_type m \<longrightarrow> \<not> f m'"
    and stop: "\<not> msg_stop m"
    and run: "apply_stack m s = (r, s')"
  shows "fn_calls s' = fn_calls s \<and> PARAM_STORE s' = PARAM_STORE s \<and>
         (\<forall>m'. r = Inr m' \<longrightarrow> msg_value m' = Some v)"
proof -
  let ?hs = "rev (PYRO_STACK s)"
  let ?n = "length inner"
  have ne: "PYRO_STACK s \<noteq> []" using st by simp
  have hs: "?hs = rev inner @ rp # rev pre" using st by simp
  show ?thesis
  proof (rule apply_stack_cases [OF ne run])
    fix k
    assume k0: "0 < k" "k \<le> length (PYRO_STACK s)"
      and k: "(\<exists>e. process_all (heap s) (take k ?hs) m = Inl e \<and> r = Inl e \<and>
              s' = s\<lparr>hook_calls := hook_calls s @ map Process_message (take k ?hs)\<rparr>) \<or>
         (\<exists>m1 r2 s2.
            process_all (heap s) (take k ?hs) m = Inr m1 \<and>
            (k < length (PYRO_STACK s) \<longrightarrow> msg_stop m1) \<and>
            fill_value m1 (s\<lparr>hook_calls := hook_calls s @ map Process_message (take k ?hs)\<rparr>)
              = (r2, s2) \<and>
            ((\<exists>e. r2 = Inl e \<and> r = Inl e \<and> s' = s2) \<or>
             (\<exists>m2 r3. r2 = Inr m2 \<and>
                postprocess_loop (rev (take k ?hs)) m2 s2 = (r3, s') \<and>
                r = (case r3 of Inl e \<Rightarrow> Inl e | Inr u \<Rightarrow> Inr m2))))"
    have val: "msg_value m1 = Some v"
      if m1: "process_all (heap s) (take k ?hs) m = Inr m1"
        and sp: "k < length (PYRO_STACK s) \<longrightarrow> msg_stop m1" for m1
    proof -
      have "?n < k"
      proof (rule ccontr)
        assume "\<not> ?n < k"
        then have kn: "k \<le> ?n" by simp
        then have "take k ?hs = take k (rev inner)" unfolding hs by simp
        moreover have "\<forall>h\<in>set (take k (rev inner)). \<forall>f m'. heap s h = Block f \<longrightarrow>
            msg_name m' = msg_name m \<longrightarrow> msg_type m' = msg_type m \<longrightarrow> \<not> f m'"
        proof
          fix h
          assume "h \<in> set (take k (rev inner))"
          then have "h \<in> set inner" using set_take_subset [of k "rev inner"] by auto
          with inner show "\<forall>f m'. heap s h = Block f \<longrightarrow> msg_name m' = msg_name m \<longrightarrow>
            msg_type m' = msg_type m \<longrightarrow> \<not> f m'" by blast
        qed
        ultimately have "msg_stop m1 = msg_stop m"
          using process_all_no_hide [of "heap s" "take k (rev inner)" m m1] m1 by simp
        moreover have "k < length (PYRO_STACK s)" using kn st by simp
        ultimately show False using sp stop by simp
      qed
      then have tk: "take k ?hs = rev inner @ [rp] @ take (k - ?n - 1) (rev pre)"
        unfolding hs by (simp add: take_Cons')
      from m1 [unfolded tk] obtain ma mb where ma: "process_all (heap s) (rev inner) m = Inr ma"
        and mb: "process_message (heap s rp) ma = Inr mb"
        and mc: "process_all (heap s) (take (k - ?n - 1) (rev pre)) mb = Inr m1"
        by (auto simp: process_all_append split: sum.splits)
      from process_all_keeps [OF ma] have na: "msg_name ma = msg_name m" by simp
      with mb rp have vb: "msg_value mb = Some v" "msg_name mb = msg_name m" by auto
      have "\<forall>h\<in>set (take (k - ?n - 1) (rev pre)). \<not> replays (heap s h) (msg_name mb)"
        using outer vb(2) set_take_subset [of "k - ?n - 1" "rev pre"] by auto
      from process_all_value [OF mc this] vb(1) show ?thesis by simp
    qed
    from k show ?thesis
    proof (elim disjE exE conjE)
      fix e
      assume "r = Inl e" "s' = s\<lparr>hook_calls := hook_calls s @ map Process_message (take k ?hs)\<rparr>"
      then show ?thesis by simp
    next
      fix m1 r2 s2 e
      assume m1: "process_all (heap s) (take k ?hs) m = Inr m1"
        and sp: "k < length (PYRO_STACK s) \<longrightarrow> msg_stop m1"
        and f: "fill_value m1 (s\<lparr>hook_calls := hook_calls s @ map Process_message (take k ?hs)\<rparr>) = (r2, s2)"
        and "r2 = Inl e"
      with fill_value_calls [OF f] val [OF m1 sp] show ?thesis by simp
    next
      fix m1 r2 s2 m2 r3
      assume m1: "process_all (heap s) (take k ?hs) m = Inr m1"
        and sp: "k < length (PYRO_STACK s) \<longrightarrow> msg_stop m1"
        and f: "fill_value m1 (s\<lparr>hook_calls := hook_calls s @ map Process_message (take k ?hs)\<rparr>) = (r2, s2)"
        and r2: "r2 = Inr m2"
        and q: "postprocess_loop (rev (take k ?hs)) m2 s2 = (r3, s')"
        and r1: "r = (case r3 of Inl e \<Rightarrow> Inl e | Inr u \<Rightarrow> Inr m2)"
      from fill_value_calls [OF f] val [OF m1 sp] r2
      have "m2 = m1" "fn_calls s2 = fn_calls s" "PARAM_STORE s2 = PARAM_STORE s" by simp_all
      moreover from postprocess_loop_char [OF q]
      have "fn_calls s' = fn_calls s2" "PARAM_STORE s' = PARAM_STORE s2" by auto
      ultimately show ?thesis using r1 val [OF m1 sp] by (auto split: sum.splits)
    qed
  qed
qed

lemma sample_replay:
  assumes "PYRO_STACK s = pre @ rp # inner" "heap s rp = Replay G" "map_of G x = Some site"
    "msg_value site = Some v" "\<forall>h\<in>set pre. \<not> replays (heap s h) x"
    "\<forall>h\<in>set inner. \<forall>f m'. heap s h = Block f \<longrightarrow> msg_name m' = x \<longrightarrow>
        msg_type m' = Sample \<longrightarrow> \<not> f m'"
    "sample x d obs s = (r, s')"
  shows "fn_calls s' = fn_calls s \<and> (\<forall>res. r = Inr res \<longrightarrow> res = Some v)"
proof -
  let ?m = "\<lparr>msg_type = Sample, msg_name = x, msg_fn = DistFn d, msg_args = NoArgs,
             msg_value = obs, msg_stop = False\<rparr>"
  obtain r1 where a: "apply_stack ?m s = (r1, s')"
    and r: "r = (case r1 of Inl e \<Rightarrow> Inl e | Inr m' \<Rightarrow> Inr (msg_value m'))"
    using assms(1,7) by (auto simp: sample_def split: prod.splits sum.splits)
  from apply_stack_replay [of s pre rp inner G ?m site v r1 s'] assms(1-6) a
  have "fn_calls s' = fn_calls s \<and> (\<forall>m'. r1 = Inr m' \<longrightarrow> msg_value m' = Some v)" by simp
  with r show ?thesis by (auto split: sum.splits)
qed

lemma param_replay:
  assumes "PYRO_STACK s = pre @ rp # inner" "heap s rp = Replay G" "map_of G x = Some site"
    "msg_value site = Some v" "\<forall>h\<in>set pre. \<not> replays (heap s h) x"
    "\<forall>h\<in>set inner. \<forall>f m'. heap s h = Block f \<longrightarrow> msg_name m' = x \<longrightarrow>
        msg_type m' = Param \<longrightarrow> \<not> f m'"
    "param x iv c s = (r, s')"
  shows "fn_calls s' = fn_calls s \<and> PARAM_STORE s' = PARAM_STORE s \<and>
         (\<forall>res. r = Inr res \<longrightarrow> res = Some v)"
proof -
  let ?m = "\<lparr>msg_type = Param, msg_name = x, msg_fn = ParamFn x, msg_args = ParamArgs iv c,
             msg_value = None, msg_stop = False\<rparr>"
  obtain r1 where a: "apply_stack ?m s = (r1, s')"
    and r: "r = (case r1 of Inl e \<Rightarrow> Inl e | Inr m' \<Rightarrow> Inr (msg_value m'))"
    using assms(1,7) by (auto simp: param_def split: prod.splits sum.splits)
  from apply_stack_replay [of s pre rp inner G ?m site v r1 s'] assms(1-6) a
  have "fn_calls s' = fn_calls s \<and> PARAM_STORE s' = PARAM_STORE s \<and>
        (\<forall>m'. r1 = Inr m' \<longrightarrow> msg_value m' = Some v)" by simp
  with r show ?thesis by (auto split: sum.splits)
qed

text \<open>
  Claim C10. The pre-hook of a replay sets the value of any message whose name its
  reference trace has to the recorded value, whatever the kind of the message and
  whatever value it had. So with such a replay innermost and no replay with the name
  outside it, an observed sample site returns the recorded value and not its
  observation, and a param site returns the recorded value without its closure being
  called or the parameter store changing.
\<close>

theorem replay_overwrites_any_kind:
  "(map_of G (msg_name m) = Some site \<longrightarrow>
      process_message (Replay G) m = Inr (m\<lparr>msg_value := msg_value site\<rparr>)) \<and>
   (PYRO_STACK s = pre @ [rp] \<longrightarrow> heap s rp = Replay G \<longrightarrow> map_of G x = Some site \<longrightarrow>
    msg_value site = Some v \<longrightarrow> (\<forall>h\<in>set pre. \<not> replays (heap s h) x) \<longrightarrow>
      (sample x d (Some ob) s = (r, s') \<longrightarrow> (\<forall>res. r = Inr res \<longrightarrow> res = Some v)) \<and>
      (param x iv c s = (r2, s2) \<longrightarrow>
         fn_calls s2 = fn_calls s \<and> PARAM_STORE s2 = PARAM_STORE s \<and>
         (\<forall>res. r2 = Inr res \<longrightarrow> res = Some v)))"
proof -
  have hook: "map_of G (msg_name m) = Some site \<longrightarrow>
      process_message (Replay G) m = Inr (m\<lparr>msg_value := msg_value site\<rparr>)"
    by simp
  have e: "\<forall>h\<in>set []. \<forall>f m'. heap s h = Block f \<longrightarrow> msg_name m' = x \<longrightarrow>
        msg_type m' = Sample \<longrightarrow> \<not> f m'"
    "\<forall>h\<in>set []. \<forall>f m'. heap s h = Block f \<longrightarrow> msg_name m' = x \<longrightarrow>
        msg_type m' = Param \<longrightarrow> \<not> f m'"
    by simp_all
  note sm = sample_replay [of s pre rp "[]" G x site v d "Some ob" r s', OF _ _ _ _ _ e(1)]
  note pm = param_replay [of s pre rp "[]" G x site v iv c r2 s2, OF _ _ _ _ _ e(2)]
  from hook sm pm show ?thesis by blast
qed

theorem replay_overwrites_any_kind_witness:
  "map_of trace_x (msg_name (msg_x\<lparr>msg_value := Some 42\<rparr>)) = Some (snd (hd trace_x)) \<and>
   process_message (Replay trace_x) (msg_x\<lparr>msg_value := Some 42\<rparr>) = Inr (msg_x\<lparr>msg_value := Some 99\<rparr>) \<and>
   PYRO_STACK state_replay = [] @ [0] \<and> heap state_replay 0 = Replay trace_x \<and>
   map_of trace_x ''x'' = Some (snd (hd trace_x)) \<and> msg_value (snd (hd trace_x)) = Some 99 \<and>
   fst (sample ''x'' dist_a (Some 42) state_replay) = Inr (Some 99) \<and>
   fst (param ''x'' (Some 5) shift state_replay) = Inr (Some 99) \<and>
   PARAM_STORE (snd (param ''x'' (Some 5) shift state_replay)) = Map.empty"
proof -
  note T = replay_overwrites_any_kind [where G = trace_x and m = "msg_x\<lparr>msg_value := Some 42\<rparr>"
      and site = "snd (hd trace_x)" and s = state_replay and pre = "[]" and rp = 0
      and x = "''x''" and v = 99 and d = dist_a and ob = 42 and iv = "Some 5" and c = shift
      and r = "fst (sample ''x'' dist_a (Some 42) state_replay)"
      and s' = "snd (sample ''x'' dist_a (Some 42) state_replay)"
      and ?r2.0 = "fst (param ''x'' (Some 5) shift state_replay)"
      and ?s2.0 = "snd (param ''x'' (Some 5) shift state_replay)"]
  have h: "map_of trace_x (msg_name (msg_x\<lparr>msg_value := Some 42\<rparr>)) = Some (snd (hd trace_x))"
    "PYRO_STACK state_replay = [] @ [0]" "heap state_replay 0 = Replay trace_x"
    "map_of trace_x ''x'' = Some (snd (hd trace_x))" "msg_value (snd (hd trace_x)) = Some 99"
    by (simp_all add: state_replay_def trace_x_def msg_x_def)
  have ret: "fst (sample ''x'' dist_a (Some 42) state_replay) = Inr (Some 99)"
    "fst (param ''x'' (Some 5) shift state_replay) = Inr (Some 99)"
    by (simp_all add: sample_def param_def apply_stack_def fill_value_def slice_from_def
        state_replay_def trace_x_def Let_def)
  from T [THEN conjunct1] h(1)
  have c1: "process_message (Replay trace_x) (msg_x\<lparr>msg_value := Some 42\<rparr>) = Inr (msg_x\<lparr>msg_value := Some 99\<rparr>)"
    by (simp add: trace_x_def)
  from T [THEN conjunct2] h(2-5)
  have c2: "PARAM_STORE (snd (param ''x'' (Some 5) shift state_replay)) = Map.empty"
    by (simp add: state_replay_def)
  from h ret c1 c2 show ?thesis by simp
qed

subsection \<open>Parameters\<close>






subsection \<open>Traces\<close>

lemma well_keyed_postprocess:
  "well_keyed h \<Longrightarrow> postprocess_message h m = Inr h' \<Longrightarrow> well_keyed h'"
  by (cases h) (auto simp: well_keyed_def split: if_splits)

lemma postprocess_loop_duplicate:
  "postprocess_loop hs m s = (r, s1) \<Longrightarrow> t \<in> set hs \<Longrightarrow> heap s t = Trace tr \<Longrightarrow>
     msg_name m \<in> fst ` set tr \<Longrightarrow> \<exists>e. r = Inl e"
proof (induction hs arbitrary: s)
  case Nil
  then show ?case by simp
next
  case (Cons h hs)
  show ?case
  proof (cases "postprocess_message (heap s h) m")
    case (Inl e)
    with Cons.prems(1) show ?thesis by (auto simp: Let_def)
  next
    case (Inr h1)
    let ?s1 = "s\<lparr>hook_calls := hook_calls s @ [Postprocess_message h], heap := (heap s)(h := h1)\<rparr>"
    from Inr Cons.prems(1) have q: "postprocess_loop hs m ?s1 = (r, s1)" by (auto simp: Let_def)
    have "h \<noteq> t"
    proof
      assume "h = t"
      with Inr Cons.prems(3) have "postprocess_message (Trace tr) m = Inr h1" by simp
      with Cons.prems(4) show False by simp
    qed
    with Cons.prems(2,3) have "t \<in> set hs" "heap ?s1 t = Trace tr" by auto
    from Cons.IH [OF q this Cons.prems(4)] show ?thesis .
  qed
qed

lemma postprocess_loop_error:
  "postprocess_loop hs m s = (Inl e, s1) \<Longrightarrow> e = AssertionError"
proof (induction hs arbitrary: s)
  case Nil
  then show ?case by simp
next
  case (Cons h hs)
  show ?case
  proof (cases "postprocess_message (heap s h) m")
    case (Inl e')
    then have "e' = AssertionError" by (cases "heap s h") (auto split: if_splits)
    with Inl Cons.prems show ?thesis by (auto simp: Let_def)
  next
    case (Inr h1)
    with Cons.prems Cons.IH show ?thesis by (auto simp: Let_def)
  qed
qed

lemma process_message_well_formed:
  "well_formed m \<Longrightarrow> \<exists>m1. process_message h m = Inr m1 \<and> well_formed m1"
  by (cases h)
     (auto simp: well_formed_def split: option.splits kind.splits descriptor.splits arguments.splits)

lemma process_all_well_formed:
  "well_formed m \<Longrightarrow> \<exists>m1. process_all hp hs m = Inr m1 \<and> well_formed m1"
proof (induction hs arbitrary: m)
  case Nil
  then show ?case by simp
next
  case (Cons h hs)
  from process_message_well_formed [OF Cons.prems, of "hp h"]
  obtain m0 where "process_message (hp h) m = Inr m0" "well_formed m0" by blast
  with Cons.IH [of m0] show ?case by simp
qed

lemma fill_value_error:
  "well_formed m \<Longrightarrow> fill_value m s = (Inl e, s1) \<Longrightarrow> e = AssertionError"
  by (auto simp: fill_value_def well_formed_def dist_call_def param_fn_def Let_def
           split: option.splits prod.splits sum.splits kind.splits descriptor.splits
                  arguments.splits)

lemma apply_stack_preserves:
  assumes P: "\<And>h h' m. complete m \<Longrightarrow> P h \<Longrightarrow> postprocess_message h m = Inr h' \<Longrightarrow> P h'"
    and wf: "well_formed m"
    and h: "P (heap s t)"
    and run: "apply_stack m s = (r, s')"
  shows "P (heap s' t) \<and> next_ref s' = next_ref s"
proof -
  obtain r1 s1 where p: "process_loop (enumerate_from 0 (rev (PYRO_STACK s))) None m s = (r1, s1)"
    by (cases "process_loop (enumerate_from 0 (rev (PYRO_STACK s))) None m s")
  from process_loop_char [OF p] obtain j
    where j: "s1 = s\<lparr>hook_calls := hook_calls s @ map Process_message (take j (rev (PYRO_STACK s)))\<rparr>"
      "case r1 of
           Inl e \<Rightarrow> process_all (heap s) (take j (rev (PYRO_STACK s))) m = Inl e
         | Inr (p, m1) \<Rightarrow>
             process_all (heap s) (take j (rev (PYRO_STACK s))) m = Inr m1 \<and>
             p = (if j = 0 then None else Some (0 + j - 1)) \<and>
             (j < length (rev (PYRO_STACK s)) \<longrightarrow> msg_stop m1)"
    by blast
  from j(1) have s1: "heap s1 = heap s" "next_ref s1 = next_ref s" by simp_all
  show ?thesis
  proof (cases r1)
    case (Inl e)
    with p run have "s' = s1" by (auto simp: apply_stack_def)
    with s1 h show ?thesis by simp
  next
    case (Inr pm)
    obtain ptr m1 where pm: "pm = (ptr, m1)" by (cases pm)
    from j(2) Inr pm have "process_all (heap s) (take j (rev (PYRO_STACK s))) m = Inr m1" by simp
    with process_all_well_formed [OF wf, of "heap s" "take j (rev (PYRO_STACK s))"]
    have wf1: "well_formed m1" by auto
    obtain r2 s2 where f: "fill_value m1 s1 = (r2, s2)" by (cases "fill_value m1 s1")
    from fill_value_frame [OF f] s1 have s2: "heap s2 = heap s" "next_ref s2 = next_ref s" by simp_all
    show ?thesis
    proof (cases r2)
      case (Inl e)
      with p run Inr pm f have "s' = s2" by (auto simp: apply_stack_def)
      with s2 h show ?thesis by simp
    next
      case m2: (Inr m2)
      show ?thesis
      proof (cases ptr)
        case None
        with p run Inr pm f m2 have "s' = s2" by (auto simp: apply_stack_def)
        with s2 h show ?thesis by simp
      next
        case (Some q)
        obtain r3 s3 where l: "postprocess_loop (slice_from (- int q - 1) (PYRO_STACK s2)) m2 s2 = (r3, s3)"
          by (cases "postprocess_loop (slice_from (- int q - 1) (PYRO_STACK s2)) m2 s2")
        with p run Inr pm f m2 Some have s': "s' = s3" by (auto simp: apply_stack_def split: sum.splits)
        from fill_value_keeps [OF f [unfolded m2]] wf1 have "complete m2"
          by (simp add: complete_def well_formed_def)
        note P2 = P [OF this]
        have "P (heap s2 t)" using h s2 by simp
        from postprocess_loop_preserves [where P = P and t = t, OF P2 l this]
          postprocess_loop_char [OF l] s2 s'
        show ?thesis by auto
      qed
    qed
  qed
qed

lemma sample_preserves:
  assumes P: "\<And>h h' m. complete m \<Longrightarrow> P h \<Longrightarrow> postprocess_message h m = Inr h' \<Longrightarrow> P h'"
    and h: "P (heap s t)"
    and run: "sample n d obs s = (r, s')"
  shows "P (heap s' t) \<and> next_ref s' = next_ref s"
proof (cases "PYRO_STACK s = []")
  case True
  with run h show ?thesis by (auto simp: sample_def dist_call_def)
next
  case False
  let ?m = "\<lparr>msg_type = Sample, msg_name = n, msg_fn = DistFn d, msg_args = NoArgs,
             msg_value = obs, msg_stop = False\<rparr>"
  obtain r1 where a: "apply_stack ?m s = (r1, s')"
    using False run by (auto simp: sample_def split: prod.splits sum.splits)
  show ?thesis
  proof (rule apply_stack_preserves [where P = P and m = ?m])
    show "\<And>h h' m. complete m \<Longrightarrow> P h \<Longrightarrow> postprocess_message h m = Inr h' \<Longrightarrow> P h'"
      by (rule P)
    show "well_formed ?m" by (simp add: well_formed_def)
    show "P (heap s t)" by fact
    show "apply_stack ?m s = (r1, s')" by fact
  qed
qed

lemma param_preserves:
  assumes P: "\<And>h h' m. complete m \<Longrightarrow> P h \<Longrightarrow> postprocess_message h m = Inr h' \<Longrightarrow> P h'"
    and h: "P (heap s t)"
    and run: "param n iv c s = (r, s')"
  shows "P (heap s' t) \<and> next_ref s' = next_ref s"
proof (cases "PYRO_STACK s = []")
  case True
  obtain r1 where "call_fn (ParamFn n) (ParamArgs iv c) s = (r1, s')"
    using True run by (auto simp: param_def split: prod.splits sum.splits)
  from call_fn_frame [OF this] h show ?thesis by simp
next
  case False
  let ?m = "\<lparr>msg_type = Param, msg_name = n, msg_fn = ParamFn n, msg_args = ParamArgs iv c,
             msg_value = None, msg_stop = False\<rparr>"
  obtain r1 where a: "apply_stack ?m s = (r1, s')"
    using False run by (auto simp: param_def split: prod.splits sum.splits)
  show ?thesis
  proof (rule apply_stack_preserves [where P = P and m = ?m])
    show "\<And>h h' m. complete m \<Longrightarrow> P h \<Longrightarrow> postprocess_message h m = Inr h' \<Longrightarrow> P h'"
      by (rule P)
    show "well_formed ?m" by (simp add: well_formed_def)
    show "P (heap s t)" by fact
    show "apply_stack ?m s = (r1, s')" by fact
  qed
qed

text \<open>
  A property of a handler object that every post-hook keeps, when called on a well-formed
  message with its value set, is kept by the run of any model, for an object constructed
  before the run.
\<close>

lemma run_preserves:
  assumes P: "\<And>h h' m. complete m \<Longrightarrow> P h \<Longrightarrow> postprocess_message h m = Inr h' \<Longrightarrow> P h'"
  shows "run p s = (r, s') \<Longrightarrow> P (heap s t) \<Longrightarrow> t < next_ref s \<Longrightarrow>
         P (heap s' t) \<and> next_ref s \<le> next_ref s'"
proof (induction p arbitrary: s r s')
  case Done
  then show ?case by simp
next
  case (SampleP n d obs k)
  obtain r1 s1 where c: "sample n d obs s = (r1, s1)" by (cases "sample n d obs s")
  from sample_preserves [where P = P, OF P SampleP.prems(2) c]
  have s1: "P (heap s1 t)" "next_ref s1 = next_ref s" by simp_all
  show ?case
  proof (cases r1)
    case (Inl e)
    with c SampleP.prems(1) s1 show ?thesis by simp
  next
    case (Inr v)
    with c SampleP.prems(1) have "run (k v) s1 = (r, s')" by simp
    from SampleP.IH [OF _ this s1(1)] SampleP.prems(3) s1(2) show ?thesis by simp
  qed
next
  case (ParamP n iv c k)
  obtain r1 s1 where c: "param n iv c s = (r1, s1)" by (cases "param n iv c s")
  from param_preserves [where P = P, OF P ParamP.prems(2) c]
  have s1: "P (heap s1 t)" "next_ref s1 = next_ref s" by simp_all
  show ?case
  proof (cases r1)
    case (Inl e)
    with c ParamP.prems(1) s1 show ?thesis by simp
  next
    case (Inr v)
    with c ParamP.prems(1) have "run (k v) s1 = (r, s')" by simp
    from ParamP.IH [OF _ this s1(1)] ParamP.prems(3) s1(2) show ?thesis by simp
  qed
next
  case (WithP h body rest)
  let ?ref = "next_ref s"
  let ?s1 = "s\<lparr>heap := (heap s)(?ref := h), next_ref := Suc ?ref\<rparr>"
  have n: "new_handler h s = (?ref, ?s1)" by (simp add: new_handler_def)
  have ref: "?ref \<noteq> t" using WithP.prems(3) by simp
  obtain rb sb where bd: "run body (enter ?ref ?s1) = (rb, sb)"
    by (cases "run body (enter ?ref ?s1)")
  have e: "P (heap (enter ?ref ?s1) t)" "next_ref (enter ?ref ?s1) = Suc ?ref"
    using WithP.prems(2) ref by (auto simp: enter_def Let_def split: handler.splits)
  from WithP.IH(1) [OF bd e(1)] e(2) WithP.prems(3)
  have sb: "P (heap sb t)" "Suc ?ref \<le> next_ref sb" by simp_all
  have stb: "PYRO_STACK sb = PYRO_STACK s @ [?ref]"
    using run_stack [OF bd] by (simp add: enter_stack)
  let ?s2 = "sb\<lparr>PYRO_STACK := PYRO_STACK s\<rparr>"
  have l: "leave ?ref (rb, sb) = (rb, ?s2)"
    using leave_stack [of "(rb, sb)" "PYRO_STACK s" ?ref] stb by simp
  show ?case
  proof (cases rb)
    case (Inl e)
    with WithP.prems(1) n bd l have "s' = ?s2" by simp
    with sb show ?thesis by simp
  next
    case (Inr u)
    with WithP.prems(1) n bd l have "run rest ?s2 = (r, s')" by simp
    from WithP.IH(2) [OF this] WithP.prems(3) sb show ?thesis by simp
  qed
qed

lemma get_trace_well_keyed:
  assumes g: "get_trace M s = (r, s')"
  shows "well_keyed (heap s' (next_ref s)) \<and> (\<forall>tr. r = Inr tr \<longrightarrow> heap s' (next_ref s) = Trace tr)"
proof -
  let ?t = "next_ref s"
  let ?s0 = "enter ?t (s\<lparr>heap := (heap s)(?t := Trace []), next_ref := Suc ?t\<rparr>)"
  have s0: "PYRO_STACK ?s0 = PYRO_STACK s @ [?t]" "well_keyed (heap ?s0 ?t)" "?t < next_ref ?s0"
    by (simp_all add: enter_def well_keyed_def)
  obtain rb sb where bd: "run M ?s0 = (rb, sb)" by (cases "run M ?s0")
  from run_preserves [where P = well_keyed, OF well_keyed_postprocess bd s0(2,3)]
  have sb: "well_keyed (heap sb ?t)" by simp
  have stb: "PYRO_STACK sb = PYRO_STACK s @ [?t]" using run_stack [OF bd] s0(1) by simp
  have l: "leave ?t (rb, sb) = (rb, sb\<lparr>PYRO_STACK := PYRO_STACK s\<rparr>)"
    using leave_stack [of "(rb, sb)" "PYRO_STACK s" ?t] stb by simp
  from g bd l sb show ?thesis
    by (auto simp: get_trace_def new_handler_def split: sum.splits handler.splits)
qed

text \<open>
  A well-formed message whose name a trace on the stack has already recorded, with no
  block entered inside that trace: the dispatch raises AssertionError.
\<close>

lemma apply_stack_duplicate:
  assumes st: "PYRO_STACK s = pre @ t # inner"
    and tr: "heap s t = Trace tr" "msg_name m \<in> fst ` set tr"
    and inner: "\<forall>h\<in>set inner. \<forall>f. heap s h \<noteq> Block f"
    and stop: "\<not> msg_stop m"
    and wf: "well_formed m"
    and run: "apply_stack m s = (r, s')"
  shows "r = Inl AssertionError"
proof -
  let ?hs = "rev (PYRO_STACK s)"
  let ?n = "length inner"
  have ne: "PYRO_STACK s \<noteq> []" using st by simp
  have hs: "?hs = rev inner @ t # rev pre" using st by simp
  show ?thesis
  proof (rule apply_stack_cases [OF ne run])
    fix k
    assume k: "(\<exists>e. process_all (heap s) (take k ?hs) m = Inl e \<and> r = Inl e \<and>
              s' = s\<lparr>hook_calls := hook_calls s @ map Process_message (take k ?hs)\<rparr>) \<or>
         (\<exists>m1 r2 s2.
            process_all (heap s) (take k ?hs) m = Inr m1 \<and>
            (k < length (PYRO_STACK s) \<longrightarrow> msg_stop m1) \<and>
            fill_value m1 (s\<lparr>hook_calls := hook_calls s @ map Process_message (take k ?hs)\<rparr>)
              = (r2, s2) \<and>
            ((\<exists>e. r2 = Inl e \<and> r = Inl e \<and> s' = s2) \<or>
             (\<exists>m2 r3. r2 = Inr m2 \<and>
                postprocess_loop (rev (take k ?hs)) m2 s2 = (r3, s') \<and>
                r = (case r3 of Inl e \<Rightarrow> Inl e | Inr u \<Rightarrow> Inr m2))))"
    from process_all_well_formed [OF wf, of "heap s" "take k ?hs"]
    obtain mw where mw: "process_all (heap s) (take k ?hs) m = Inr mw" "well_formed mw" by blast
    from k show ?thesis
    proof (elim disjE exE conjE)
      fix e
      assume "process_all (heap s) (take k ?hs) m = Inl e"
      with mw show ?thesis by simp
    next
      fix m1 r2 s2 e
      assume "process_all (heap s) (take k ?hs) m = Inr m1"
        and f: "fill_value m1 (s\<lparr>hook_calls := hook_calls s @ map Process_message (take k ?hs)\<rparr>) = (r2, s2)"
        and e: "r2 = Inl e" "r = Inl e"
      with mw have "well_formed m1" by simp
      from fill_value_error [OF this f [unfolded e(1)]] e(2) show ?thesis by simp
    next
      fix m1 r2 s2 m2 r3
      assume m1: "process_all (heap s) (take k ?hs) m = Inr m1"
        and sp: "k < length (PYRO_STACK s) \<longrightarrow> msg_stop m1"
        and f: "fill_value m1 (s\<lparr>hook_calls := hook_calls s @ map Process_message (take k ?hs)\<rparr>) = (r2, s2)"
        and r2: "r2 = Inr m2"
        and q: "postprocess_loop (rev (take k ?hs)) m2 s2 = (r3, s')"
        and r1: "r = (case r3 of Inl e \<Rightarrow> Inl e | Inr u \<Rightarrow> Inr m2)"
      have "?n < k"
      proof (rule ccontr)
        assume "\<not> ?n < k"
        then have kn: "k \<le> ?n" by simp
        then have "take k ?hs = take k (rev inner)" unfolding hs by simp
        moreover have "\<forall>h\<in>set (take k (rev inner)). \<forall>f. heap s h \<noteq> Block f"
          using inner set_take_subset [of k "rev inner"] by auto
        ultimately have "msg_stop m1 = msg_stop m"
          using process_all_stop [of "heap s" "take k (rev inner)" m m1] m1 by simp
        moreover have "k < length (PYRO_STACK s)" using kn st by simp
        ultimately show False using sp stop by simp
      qed
      then have "take k ?hs = rev inner @ [t] @ take (k - ?n - 1) (rev pre)"
        unfolding hs by (simp add: take_Cons')
      then have mem: "t \<in> set (rev (take k ?hs))" by simp
      from fill_value_frame [OF f] tr(1) have h2: "heap s2 t = Trace tr" by simp
      from process_all_keeps [OF m1] fill_value_keeps [OF f [unfolded r2]] tr(2)
      have "msg_name m2 \<in> fst ` set tr" by simp
      from postprocess_loop_duplicate [OF q mem h2 this] obtain e where e: "r3 = Inl e" by blast
      from postprocess_loop_error [OF q [unfolded e]] e r1 show ?thesis by simp
    qed
  qed
qed

lemma sample_duplicate:
  assumes "PYRO_STACK s = pre @ t # inner" "heap s t = Trace tr" "x \<in> fst ` set tr"
    "\<forall>h\<in>set inner. \<forall>f. heap s h \<noteq> Block f" "sample x d obs s = (r, s')"
  shows "r = Inl AssertionError"
proof -
  let ?m = "\<lparr>msg_type = Sample, msg_name = x, msg_fn = DistFn d, msg_args = NoArgs,
             msg_value = obs, msg_stop = False\<rparr>"
  obtain r1 where a: "apply_stack ?m s = (r1, s')"
    and r: "r = (case r1 of Inl e \<Rightarrow> Inl e | Inr m' \<Rightarrow> Inr (msg_value m'))"
    using assms(1,5) by (auto simp: sample_def split: prod.splits sum.splits)
  from apply_stack_duplicate [of s pre t inner tr ?m r1 s'] assms(1-4) a
  have "r1 = Inl AssertionError" by (simp add: well_formed_def)
  with r show ?thesis by simp
qed

lemma param_duplicate:
  assumes "PYRO_STACK s = pre @ t # inner" "heap s t = Trace tr" "x \<in> fst ` set tr"
    "\<forall>h\<in>set inner. \<forall>f. heap s h \<noteq> Block f" "param x iv c s = (r, s')"
  shows "r = Inl AssertionError"
proof -
  let ?m = "\<lparr>msg_type = Param, msg_name = x, msg_fn = ParamFn x, msg_args = ParamArgs iv c,
             msg_value = None, msg_stop = False\<rparr>"
  obtain r1 where a: "apply_stack ?m s = (r1, s')"
    and r: "r = (case r1 of Inl e \<Rightarrow> Inl e | Inr m' \<Rightarrow> Inr (msg_value m'))"
    using assms(1,5) by (auto simp: param_def split: prod.splits sum.splits)
  from apply_stack_duplicate [of s pre t inner tr ?m r1 s'] assms(1-4) a
  have "r1 = Inl AssertionError" by (simp add: well_formed_def)
  with r show ?thesis by simp
qed

text \<open>
  Claim C7. The post-hook of a trace raises AssertionError when the name of the message
  is already a key of its mapping, and otherwise appends the message under its name. The
  trace that \<^verbatim>\<open>trace(M).get_trace()\<close> returns, for every model \<open>M\<close>, has distinct keys,
  each the name of the message stored under it. A \<^verbatim>\<open>sample\<close> or \<^verbatim>\<open>param\<close> whose name an
  active trace has recorded, with no block entered inside that trace, raises
  AssertionError.
\<close>

theorem trace_unique_names:
  "postprocess_message (Trace tr) m =
     (if msg_name m \<in> fst ` set tr then Inl AssertionError
      else Inr (Trace (tr @ [(msg_name m, m)]))) \<and>
   (get_trace M u = (Inr tr', u') \<longrightarrow>
      distinct (map fst tr') \<and> map fst tr' = map (msg_name \<circ> snd) tr') \<and>
   (PYRO_STACK s = pre @ t # inner \<longrightarrow> heap s t = Trace tr \<longrightarrow> x \<in> fst ` set tr \<longrightarrow>
    (\<forall>h\<in>set inner. \<forall>f. heap s h \<noteq> Block f) \<longrightarrow>
      (sample x d obs s = (r, s') \<longrightarrow> r = Inl AssertionError) \<and>
      (param x iv c s = (r2, s2) \<longrightarrow> r2 = Inl AssertionError))"
proof -
  have a: "get_trace M u = (Inr tr', u') \<longrightarrow>
      distinct (map fst tr') \<and> map fst tr' = map (msg_name \<circ> snd) tr'"
  proof
    assume "get_trace M u = (Inr tr', u')"
    from get_trace_well_keyed [OF this] have "well_keyed (Trace tr')" by auto
    then show "distinct (map fst tr') \<and> map fst tr' = map (msg_name \<circ> snd) tr'"
      unfolding well_keyed_def by simp
  qed
  note b = sample_duplicate [of s pre t inner tr x d obs r s']
  note c = param_duplicate [of s pre t inner tr x iv c r2 s2]
  have d: "postprocess_message (Trace tr) m =
     (if msg_name m \<in> fst ` set tr then Inl AssertionError
      else Inr (Trace (tr @ [(msg_name m, m)])))" by simp
  from a b c d show ?thesis by blast
qed

theorem trace_unique_names_witness:
  "fst (get_trace model_px state0) =
     Inr [(''p'', \<lparr>msg_type = Param, msg_name = ''p'', msg_fn = ParamFn ''p'',
                   msg_args = ParamArgs (Some 5) shift, msg_value = Some 5, msg_stop = False\<rparr>),
          (''x'', \<lparr>msg_type = Sample, msg_name = ''x'', msg_fn = DistFn dist_a,
                   msg_args = NoArgs, msg_value = Some 8, msg_stop = False\<rparr>)] \<and>
   PYRO_STACK state_traced = [] @ 0 # [] \<and> heap state_traced 0 = Trace trace_x \<and>
   ''x'' \<in> fst ` set trace_x \<and>
   fst (sample ''x'' dist_a None state_traced) = Inl AssertionError \<and>
   fst (param ''x'' (Some 5) shift state_traced) = Inl AssertionError \<and>
   fst (get_trace model_xx state0) = Inl AssertionError"
proof -
  let ?tr = "[(''p'', \<lparr>msg_type = Param, msg_name = ''p'', msg_fn = ParamFn ''p'',
                   msg_args = ParamArgs (Some 5) shift, msg_value = Some (5::int), msg_stop = False\<rparr>),
          (''x'', \<lparr>msg_type = Sample, msg_name = ''x'', msg_fn = DistFn dist_a,
                   msg_args = NoArgs, msg_value = Some 8, msg_stop = False\<rparr>)]"
  note T = trace_unique_names [where M = model_px and u = state0 and tr' = ?tr
      and u' = "snd (get_trace model_px state0)" and s = state_traced and pre = "[]" and t = 0
      and inner = "[]" and tr = trace_x and x = "''x''" and d = dist_a and obs = None
      and r = "fst (sample ''x'' dist_a None state_traced)"
      and s' = "snd (sample ''x'' dist_a None state_traced)"
      and iv = "Some 5" and c = shift
      and ?r2.0 = "fst (param ''x'' (Some 5) shift state_traced)"
      and ?s2.0 = "snd (param ''x'' (Some 5) shift state_traced)"]
  have g: "fst (get_trace model_px state0) = Inr ?tr"
    by (simp add: get_trace_def new_handler_def enter_def leave_def exit_def sample_def param_def
        apply_stack_def fill_value_def param_fn_def dist_call_def slice_from_def state0_def
        Let_def shift_def model_px_def dist_a_def)
  have h: "PYRO_STACK state_traced = [] @ 0 # []" "heap state_traced 0 = Trace trace_x"
    "''x'' \<in> fst ` set trace_x"
    by (simp_all add: state_traced_def trace_x_def)
  from T [THEN conjunct2, THEN conjunct2] h
  have f: "fst (sample ''x'' dist_a None state_traced) = Inl AssertionError"
    "fst (param ''x'' (Some 5) shift state_traced) = Inl AssertionError"
    by simp_all
  have x: "fst (get_trace model_xx state0) = Inl AssertionError"
    by (simp add: get_trace_def new_handler_def enter_def leave_def exit_def sample_def
        apply_stack_def fill_value_def dist_call_def slice_from_def state0_def
        Let_def model_xx_def)
  from g h f x show ?thesis by simp
qed

subsection \<open>The bypass and the dispatch protocol\<close>

lemma process_loop_spec:
  "process_loop (enumerate_from k hs) ptr m s =
     (case spec_pre_phase hs m s of
        (Inl e, s1) \<Rightarrow> (Inl e, s1)
      | (Inr (reached, m1), s1) \<Rightarrow>
          (Inr (if reached = [] then ptr else Some (k + length reached - 1), m1), s1))"
proof (induction hs arbitrary: k ptr m s)
  case Nil
  then show ?case by simp
next
  case (Cons h hs)
  show ?case
    by (simp add: Let_def Cons.IH split: sum.splits prod.splits)
qed

lemma spec_pre_phase_reached:
  "spec_pre_phase hs m s = (Inr (reached, m1), s1) \<Longrightarrow>
     reached = take (length reached) hs \<and> (hs \<noteq> [] \<longrightarrow> reached \<noteq> []) \<and>
     PYRO_STACK s1 = PYRO_STACK s"
proof (induction hs arbitrary: m s reached)
  case Nil
  then show ?case by simp
next
  case (Cons h hs)
  let ?s1 = "s\<lparr>hook_calls := hook_calls s @ [Process_message h]\<rparr>"
  from Cons.prems obtain m0 where m0: "process_message (heap s h) m = Inr m0"
    by (cases "process_message (heap s h) m") (auto simp: Let_def)
  show ?case
  proof (cases "msg_stop m0")
    case True
    with Cons.prems m0 show ?thesis by (auto simp: Let_def)
  next
    case False
    with Cons.prems m0 obtain rs where rs: "spec_pre_phase hs m0 ?s1 = (Inr (rs, m1), s1)"
      "reached = h # rs"
      by (auto simp: Let_def split: sum.splits prod.splits)
    from Cons.IH [OF rs(1)] rs(2) show ?thesis by simp
  qed
qed

text \<open>Over a non-empty stack \<^verbatim>\<open>apply_stack\<close> is the protocol of the specification.\<close>

lemma apply_stack_spec_dispatch:
  assumes ne: "PYRO_STACK s \<noteq> []"
  shows "apply_stack m s = spec_dispatch m s"
proof (cases "spec_pre_phase (rev (PYRO_STACK s)) m s")
  case (Pair r1 s1)
  show ?thesis
  proof (cases r1)
    case (Inl e)
    with Pair show ?thesis
      by (simp add: apply_stack_def spec_dispatch_def process_loop_spec)
  next
    case (Inr rm)
    obtain reached m1 where rm: "rm = (reached, m1)" by (cases rm)
    from spec_pre_phase_reached [OF Pair [unfolded Inr rm]] ne
    have re: "reached = take (length reached) (rev (PYRO_STACK s))" "reached \<noteq> []"
      "PYRO_STACK s1 = PYRO_STACK s" by simp_all
    have len: "length reached \<le> length (PYRO_STACK s)"
    proof -
      have "length reached = length (take (length reached) (rev (PYRO_STACK s)))"
        using re(1) by simp
      then show ?thesis by simp
    qed
    have p: "process_loop (enumerate_from 0 (rev (PYRO_STACK s))) None m s =
               (Inr (Some (length reached - 1), m1), s1)"
      using Pair Inr rm re(2) by (simp add: process_loop_spec)
    show ?thesis
    proof (cases "fill_value m1 s1")
      case f: (Pair r2 s2)
      show ?thesis
      proof (cases r2)
        case (Inl e)
        with Pair Inr rm p f show ?thesis by (simp add: apply_stack_def spec_dispatch_def)
      next
        case m2: (Inr m2)
        from fill_value_frame [OF f] re(3) have st: "PYRO_STACK s2 = PYRO_STACK s" by simp
        have n: "0 < length reached" using re(2) by simp
        then have lt: "length reached - 1 < length (PYRO_STACK s)" using len by arith
        have "slice_from (- int (length reached - 1) - 1) (PYRO_STACK s) =
                rev (take (Suc (length reached - 1)) (rev (PYRO_STACK s)))"
          by (rule slice_from_pointer [OF lt])
        also have "Suc (length reached - 1) = length reached" using n by simp
        also have "take (length reached) (rev (PYRO_STACK s)) = reached" using re(1) by simp
        finally have "slice_from (- int (length reached - 1) - 1) (PYRO_STACK s2) = rev reached"
          unfolding st .
        with Pair Inr rm p f m2 show ?thesis by (simp add: apply_stack_def spec_dispatch_def)
      qed
    qed
  qed
qed

lemma bypass_unobserved:
  assumes "PYRO_STACK s = []"
  shows "sample name d None s = resolved (spec_dispatch (sample_msg name d None) s)"
    and "param name iv c s = resolved (spec_dispatch (param_msg name iv c) s)"
    and "sample name d (Some ob) s = (Inr (Some (draw d (fn_calls s))), s\<lparr>fn_calls := Suc (fn_calls s)\<rparr>)"
    and "resolved (spec_dispatch (sample_msg name d (Some ob)) s) = (Inr (Some ob), s)"
    and "fst (apply_stack m s) = Inl UnboundLocalError \<or>
         (\<exists>e. fst (fill_value m s) = Inl e \<and> fst (apply_stack m s) = Inl e)"
proof -
  show "sample name d None s = resolved (spec_dispatch (sample_msg name d None) s)"
    using assms
    by (simp add: sample_def resolved_def spec_dispatch_def sample_msg_def fill_value_def
        dist_call_def)
  show "param name iv c s = resolved (spec_dispatch (param_msg name iv c) s)"
    using assms
    by (simp add: param_def resolved_def spec_dispatch_def param_msg_def fill_value_def
        split: prod.splits sum.splits)
  show "sample name d (Some ob) s = (Inr (Some (draw d (fn_calls s))), s\<lparr>fn_calls := Suc (fn_calls s)\<rparr>)"
    using assms by (simp add: sample_def dist_call_def)
  show "resolved (spec_dispatch (sample_msg name d (Some ob)) s) = (Inr (Some ob), s)"
    using assms by (simp add: resolved_def spec_dispatch_def sample_msg_def fill_value_def)
  show "fst (apply_stack m s) = Inl UnboundLocalError \<or>
         (\<exists>e. fst (fill_value m s) = Inl e \<and> fst (apply_stack m s) = Inl e)"
    using assms by (auto simp: apply_stack_def split: prod.splits sum.splits)
qed

text \<open>
  Claim C8, as stated, fails for an observed sample site: with no handler active,
  \<^verbatim>\<open>sample("x", d, obs=42)\<close> calls \<open>d\<close> and returns its draw, 7, while the dispatch protocol
  over zero handlers returns the observation without a draw; \<^verbatim>\<open>apply_stack\<close> itself,
  which is never called on an empty stack, would raise UnboundLocalError there.
\<close>

theorem bypass_observed_counterexample:
  "PYRO_STACK state0 = [] \<and>
   fst (sample ''x'' dist_a (Some 42) state0) = Inr (Some 7) \<and>
   fn_calls (snd (sample ''x'' dist_a (Some 42) state0)) = 1 \<and>
   fst (resolved (spec_dispatch (sample_msg ''x'' dist_a (Some 42)) state0)) = Inr (Some 42) \<and>
   fn_calls (snd (resolved (spec_dispatch (sample_msg ''x'' dist_a (Some 42)) state0))) = 0 \<and>
   sample ''x'' dist_a (Some 42) state0 \<noteq>
     resolved (spec_dispatch (sample_msg ''x'' dist_a (Some 42)) state0) \<and>
   fst (apply_stack (sample_msg ''x'' dist_a (Some 42)) state0) = Inl UnboundLocalError"
proof -
  have a: "fst (sample ''x'' dist_a (Some 42) state0) = Inr (Some 7)"
    "fn_calls (snd (sample ''x'' dist_a (Some 42) state0)) = 1"
    by (simp_all add: sample_def dist_call_def state0_def dist_a_def)
  have b: "fst (resolved (spec_dispatch (sample_msg ''x'' dist_a (Some 42)) state0)) = Inr (Some 42)"
    "fn_calls (snd (resolved (spec_dispatch (sample_msg ''x'' dist_a (Some 42)) state0))) = 0"
    by (simp_all add: resolved_def spec_dispatch_def sample_msg_def fill_value_def state0_def)
  have c: "fst (apply_stack (sample_msg ''x'' dist_a (Some 42)) state0) = Inl UnboundLocalError"
    by (simp add: apply_stack_def sample_msg_def fill_value_def state0_def)
  have d: "PYRO_STACK state0 = []" by (simp add: state0_def)
  from a(1) b(1) have "sample ''x'' dist_a (Some 42) state0 \<noteq>
     resolved (spec_dispatch (sample_msg ''x'' dist_a (Some 42)) state0)"
    by auto
  with a b c d show ?thesis by simp
qed

text \<open>
  Claim C8, amended. With no handler active, \<^verbatim>\<open>param\<close>, and \<^verbatim>\<open>sample\<close> without an
  observed value, return the value and leave the state that the dispatch protocol over
  zero handlers does; \<^verbatim>\<open>sample\<close> with an observed value calls the distribution and
  returns its draw. (Over a non-empty stack \<^verbatim>\<open>apply_stack\<close> is that protocol.)
\<close>

theorem bypass_is_dispatch_over_zero_handlers:
  "(PYRO_STACK s = [] \<longrightarrow>
      sample name d None s = resolved (spec_dispatch (sample_msg name d None) s) \<and>
      param name iv c s = resolved (spec_dispatch (param_msg name iv c) s) \<and>
      sample name d (Some ob) s =
        (Inr (Some (draw d (fn_calls s))), s\<lparr>fn_calls := Suc (fn_calls s)\<rparr>)) \<and>
   (PYRO_STACK t \<noteq> [] \<longrightarrow> apply_stack m t = spec_dispatch m t)"
proof (intro conjI impI)
  assume e: "PYRO_STACK s = []"
  show "sample name d None s = resolved (spec_dispatch (sample_msg name d None) s)"
    by (rule bypass_unobserved(1) [OF e])
  show "param name iv c s = resolved (spec_dispatch (param_msg name iv c) s)"
    by (rule bypass_unobserved(2) [OF e])
  show "sample name d (Some ob) s =
        (Inr (Some (draw d (fn_calls s))), s\<lparr>fn_calls := Suc (fn_calls s)\<rparr>)"
    by (rule bypass_unobserved(3) [OF e])
next
  assume "PYRO_STACK t \<noteq> []"
  then show "apply_stack m t = spec_dispatch m t" by (rule apply_stack_spec_dispatch)
qed

theorem bypass_is_dispatch_over_zero_handlers_witness:
  "PYRO_STACK state0 = [] \<and>
   sample ''x'' dist_a None state0 = resolved (spec_dispatch (sample_msg ''x'' dist_a None) state0) \<and>
   fst (sample ''x'' dist_a None state0) = Inr (Some 7) \<and>
   param ''p'' (Some 5) shift state0 = resolved (spec_dispatch (param_msg ''p'' (Some 5) shift) state0) \<and>
   fst (param ''p'' (Some 5) shift state0) = Inr (Some 5) \<and>
   PYRO_STACK state3 \<noteq> [] \<and> apply_stack msg_x state3 = spec_dispatch msg_x state3"
proof -
  note T = bypass_is_dispatch_over_zero_handlers [where s = state0 and name = "''x''"
      and d = dist_a and ob = 42 and t = state3 and m = msg_x]
  have h: "PYRO_STACK state0 = []" "PYRO_STACK state3 \<noteq> []"
    by (simp_all add: state0_def state3_def)
  from T [where iv = None and c = shift] h
  have a: "sample ''x'' dist_a None state0 = resolved (spec_dispatch (sample_msg ''x'' dist_a None) state0)"
    "apply_stack msg_x state3 = spec_dispatch msg_x state3"
    by simp_all
  from bypass_is_dispatch_over_zero_handlers [where s = state0 and name = "''p''"
      and iv = "Some 5" and c = shift and t = state3] h
  have b: "param ''p'' (Some 5) shift state0 =
             resolved (spec_dispatch (param_msg ''p'' (Some 5) shift) state0)"
    by simp
  have c: "fst (sample ''x'' dist_a None state0) = Inr (Some 7)"
    "fst (param ''p'' (Some 5) shift state0) = Inr (Some 5)"
    by (simp_all add: sample_def param_def dist_call_def param_fn_def state0_def dist_a_def
        shift_def Let_def)
  from h a b c show ?thesis by simp
qed

subsection \<open>elbo\<close>












subsection \<open>Replay fidelity\<close>



lemma replay_postprocess:
  "h = Replay G \<Longrightarrow> postprocess_message h m = Inr h' \<Longrightarrow> h' = Replay G"
  by auto











end
